theory Spec2Isabelle
  imports Complex_Main "HOL-Library.Multiset" "HOL-Library.Sublist" "HOL-Library.Log_Nat"
begin

section \<open>Data model (types.ts)\<close>

text \<open>
  A \<open>Blob\<close> is opaque binary data; it is modelled by its bytes. A \<open>Date\<close> is modelled by
  its time value, the number of milliseconds since the epoch. JavaScript numbers that
  hold page indices and counts are modelled as mathematical integers.
\<close>

type_synonym blob = "nat list"
type_synonym date = int

record Page =
  page_id :: string
  page_blob :: blob
  page_url :: string
  page_index :: int

record Comic =
  comic_id :: string
  comic_name :: string
  fileId :: string
  seriesId :: string
  pages :: "Page list"
  currentPage :: int
  totalPages :: int
  lastRead :: "date option"

record ComicSeries =
  series_id :: string
  series_name :: string
  folderId :: string
  comics :: "Comic list"

text \<open>The value saved per comic by \<open>saveComicProgress\<close>:
  \<open>{ currentPage: number; lastRead: Date }\<close>.\<close>

record progress =
  progress_currentPage :: int
  progress_lastRead :: date

section \<open>StorageService (storageService.ts)\<close>

text \<open>
  The localforage store holds one item per key of \<open>StorageService.KEYS\<close>. Only the items
  the modelled operations touch are kept: \<open>comic_series\<close> and \<open>comic_progress\<close>. An item
  that was never written reads as \<open>null\<close>, here \<open>None\<close>. The item under \<open>comic_progress\<close>
  is a \<open>Record<string, {currentPage, lastRead}>\<close>, a dictionary from comic ids to
  progress values, modelled as a map; the comic ids are the file ids of the drive.
  Operations are modelled as succeeding and as run to completion one after the other,
  each returning the store it leaves behind.
\<close>

record store =
  SERIES :: "ComicSeries list option"
  COMIC_PROGRESS :: "(string \<rightharpoonup> progress) option"

definition saveSeries :: "store \<Rightarrow> ComicSeries list \<Rightarrow> store" where
  "saveSeries st series = st\<lparr>SERIES := Some series\<rparr>"

text \<open>\<open>series || []\<close>\<close>

definition getSeries :: "store \<Rightarrow> ComicSeries list" where
  "getSeries st = (case SERIES st of None \<Rightarrow> [] | Some series \<Rightarrow> series)"

text \<open>\<open>findIndex\<close>: the first position whose element satisfies the predicate, or \<open>-1\<close>,
  here \<open>None\<close>.\<close>

fun findIndex :: "('a \<Rightarrow> bool) \<Rightarrow> 'a list \<Rightarrow> nat option" where
  "findIndex P [] = None"
| "findIndex P (x # xs) =
     (if P x then Some 0 else map_option Suc (findIndex P xs))"

definition saveComic :: "store \<Rightarrow> Comic \<Rightarrow> store" where
  "saveComic st comic =
     (let series = getSeries st in
      case findIndex (\<lambda>s. series_id s = seriesId comic) series of
        None \<Rightarrow> st
      | Some seriesIndex \<Rightarrow>
          (let s = series ! seriesIndex;
               cs = (case findIndex (\<lambda>c. comic_id c = comic_id comic) (comics s) of
                       Some comicIndex \<Rightarrow> (comics s)[comicIndex := comic]
                     | None \<Rightarrow> comics s @ [comic])
           in saveSeries st (series[seriesIndex := s\<lparr>comics := cs\<rparr>])))"

text \<open>
  \<open>saveComicProgress\<close>: read the whole progress dictionary (\<open>|| {}\<close> when absent), set
  the entry of \<open>comicId\<close>, write the dictionary back.
\<close>

definition saveComicProgress :: "store \<Rightarrow> string \<Rightarrow> progress \<Rightarrow> store" where
  "saveComicProgress st comicId p =
     (let allProgress = (case COMIC_PROGRESS st of None \<Rightarrow> Map.empty | Some m \<Rightarrow> m)
      in st\<lparr>COMIC_PROGRESS := Some (allProgress(comicId \<mapsto> p))\<rparr>)"

text \<open>
  \<open>getComicProgress\<close>: \<open>allProgress[comicId] || null\<close>. A stored progress value is an
  object, hence truthy, so \<open>|| null\<close> only turns a missing entry into \<open>null\<close>.
\<close>

definition getComicProgress :: "store \<Rightarrow> string \<Rightarrow> progress option" where
  "getComicProgress st comicId =
     (let allProgress = (case COMIC_PROGRESS st of None \<Rightarrow> Map.empty | Some m \<Rightarrow> m)
      in allProgress comicId)"

section \<open>ComicService: natural ordering of entry names (comicService.ts)\<close>

datatype js_error = Error string

text \<open>A settled promise is either rejected (\<open>Inl\<close>) or fulfilled (\<open>Inr\<close>).\<close>

type_synonym 'a promise = "js_error + 'a"

text \<open>
  The strings that \<open>naturalSort\<close> and \<open>isImageFile\<close> take apart, the entry names of an
  archive, are JavaScript strings: sequences of 16-bit code units, here the lists of
  their codes. \<open>str\<close> gives the code units of a string of Latin-1 characters, so that
  \<open>str ''a.jpg''\<close> is the name \<open>a.jpg\<close>. Strings that are only stored, compared for
  equality or concatenated (ids, titles, URLs) stay of type \<open>string\<close>.
\<close>

type_synonym jsString = "nat list"

definition str :: "string \<Rightarrow> jsString" where
  "str s = map of_char s"

text \<open>
  \<open>\d\<close> matches the code units of \<open>0\<close> to \<open>9\<close> and \<open>\D\<close> every other one.
\<close>

definition isDigitChar :: "nat \<Rightarrow> bool" where
  "isDigitChar c = (48 \<le> c \<and> c \<le> 57)"

text \<open>
  \<open>a.match(/(\d+)|(\D+)/g) || []\<close>: the successive maximal runs of digits and of
  non-digits, from left to right; no run for the empty string.
\<close>

function matchRuns :: "jsString \<Rightarrow> jsString list" where
  "matchRuns [] = []"
| "matchRuns (c # cs) =
     (if isDigitChar c
      then (c # takeWhile isDigitChar cs) # matchRuns (dropWhile isDigitChar cs)
      else (c # takeWhile (\<lambda>x. \<not> isDigitChar x) cs)
             # matchRuns (dropWhile (\<lambda>x. \<not> isDigitChar x) cs))"
  by pat_completeness auto
termination
  by (relation "measure length") (auto simp: length_dropWhile_le less_Suc_eq_le)

text \<open>\<open>/^\d+$/.test(part)\<close>\<close>

definition isDigits :: "jsString \<Rightarrow> bool" where
  "isDigits s = (s \<noteq> [] \<and> list_all isDigitChar s)"

text \<open>
  JavaScript numbers are IEEE 754 doubles. The ones \<open>naturalSort\<close> computes with are
  integers, infinite or \<open>NaN\<close>; a finite one is modelled by its value.
\<close>

datatype number = NaN | NegInfinity | PosInfinity | Finite int

text \<open>\<open>v < 0\<close> and \<open>v > 0\<close>; both are false for \<open>NaN\<close>.\<close>

fun negative :: "number \<Rightarrow> bool" where
  "negative (Finite k) = (k < 0)"
| "negative NegInfinity = True"
| "negative PosInfinity = False"
| "negative NaN = False"

fun positive :: "number \<Rightarrow> bool" where
  "positive (Finite k) = (0 < k)"
| "positive PosInfinity = True"
| "positive NegInfinity = False"
| "positive NaN = False"

text \<open>
  The number for a non-negative integer: the integer itself below \<open>2^53\<close>; above, the
  integer rounded to 53 significant bits, to the nearest such value and to the one
  with an even significand when two are equally near; \<open>Infinity\<close> when the rounded
  value reaches \<open>2^1024\<close>. \<open>floorlog 2 n\<close> is the number of bits of \<open>n\<close>, and \<open>ulp\<close> the
  distance between neighbouring doubles of that size.
\<close>

definition roundInteger :: "nat \<Rightarrow> nat" where
  "roundInteger n =
     (if n < 2 ^ 53 then n
      else let ulp = 2 ^ (floorlog 2 n - 53);
               q = n div ulp;
               r = n mod ulp
           in (if 2 * r < ulp \<or> (2 * r = ulp \<and> even q) then q else q + 1) * ulp)"

definition toNumber :: "nat \<Rightarrow> number" where
  "toNumber n =
     (if 2 ^ 1024 \<le> roundInteger n then PosInfinity else Finite (int (roundInteger n)))"

text \<open>
  \<open>parseInt(part, 10)\<close>, called on strings of digits only: the number for the integer
  that the digits denote. It belongs to the host. For more than 20 significant digits
  ECMAScript lets a host round from an approximation of that integer; the model rounds
  from the integer itself.
\<close>

definition digitsValue :: "jsString \<Rightarrow> nat" where
  "digitsValue s = foldl (\<lambda>n c. 10 * n + (c - 48)) 0 s"

definition parseInt :: "jsString \<Rightarrow> number" where
  "parseInt s = toNumber (digitsValue s)"

text \<open>
  The subtraction \<open>x - y\<close> of numbers. The difference of two finite integers is rounded
  like every number; \<open>Infinity - Infinity\<close> is \<open>NaN\<close>.
\<close>

fun negate :: "number \<Rightarrow> number" where
  "negate (Finite k) = Finite (- k)"
| "negate PosInfinity = NegInfinity"
| "negate NegInfinity = PosInfinity"
| "negate NaN = NaN"

fun numSub :: "number \<Rightarrow> number \<Rightarrow> number" where
  "numSub (Finite x) (Finite y) =
     (if y \<le> x then toNumber (nat (x - y)) else negate (toNumber (nat (y - x))))"
| "numSub (Finite x) PosInfinity = NegInfinity"
| "numSub (Finite x) NegInfinity = PosInfinity"
| "numSub PosInfinity (Finite y) = PosInfinity"
| "numSub PosInfinity NegInfinity = PosInfinity"
| "numSub PosInfinity PosInfinity = NaN"
| "numSub NegInfinity (Finite y) = NegInfinity"
| "numSub NegInfinity PosInfinity = NegInfinity"
| "numSub NegInfinity NegInfinity = NaN"
| "numSub NaN y = NaN"
| "numSub (Finite x) NaN = NaN"
| "numSub PosInfinity NaN = NaN"
| "numSub NegInfinity NaN = NaN"

text \<open>
  \<open>String.prototype.localeCompare\<close> belongs to the host, not to the repository, and its
  order depends on the host's locale data. It is the parameter \<open>lc\<close>: negative, zero or
  positive as the first string sorts before, with or after the second.

  One iteration of the loop of \<open>naturalSort\<close>: the \<open>diff\<close> of the two parts at one
  position.
\<close>

definition comparePart :: "(jsString \<Rightarrow> jsString \<Rightarrow> int) \<Rightarrow> jsString \<Rightarrow> jsString \<Rightarrow> number" where
  "comparePart lc aPart bPart =
     (if isDigits aPart \<and> isDigits bPart then numSub (parseInt aPart) (parseInt bPart)
      else Finite (lc aPart bPart))"

text \<open>
  The loop \<open>for (i = 0; i < Math.max(aParts.length, bParts.length); i++)\<close>, walking both
  lists of parts in step; \<open>aParts[i] || ""\<close> reads the empty string once a list is
  exhausted. The first \<open>diff\<close> with \<open>diff !== 0\<close> is returned, which a \<open>NaN\<close> is, and 0
  after the loop.
\<close>

fun compareParts :: "(jsString \<Rightarrow> jsString \<Rightarrow> int) \<Rightarrow> jsString list \<Rightarrow> jsString list \<Rightarrow> number" where
  "compareParts lc [] [] = Finite 0"
| "compareParts lc (aPart # aParts) [] =
     (let diff = comparePart lc aPart [] in
      if diff \<noteq> Finite 0 then diff else compareParts lc aParts [])"
| "compareParts lc [] (bPart # bParts) =
     (let diff = comparePart lc [] bPart in
      if diff \<noteq> Finite 0 then diff else compareParts lc [] bParts)"
| "compareParts lc (aPart # aParts) (bPart # bParts) =
     (let diff = comparePart lc aPart bPart in
      if diff \<noteq> Finite 0 then diff else compareParts lc aParts bParts)"

definition naturalSort :: "(jsString \<Rightarrow> jsString \<Rightarrow> int) \<Rightarrow> jsString \<Rightarrow> jsString \<Rightarrow> number" where
  "naturalSort lc a b = compareParts lc (matchRuns a) (matchRuns b)"

text \<open>
  One collation a host can have, used where a concrete one is needed: the ordinal one,
  which compares code unit by code unit and sorts a proper prefix first.
\<close>

fun ordinalCompare :: "jsString \<Rightarrow> jsString \<Rightarrow> int" where
  "ordinalCompare [] [] = 0"
| "ordinalCompare [] (y # ys) = -1"
| "ordinalCompare (x # xs) [] = 1"
| "ordinalCompare (x # xs) (y # ys) =
     (if x < y then -1
      else if y < x then 1
      else ordinalCompare xs ys)"

text \<open>
  Another one, with two traits of the Unicode collation that hosts implement: the soft
  hyphen (code AD) is ignored, and the superscript two (code B2) has the weight of a
  digit, right after the digit 2. Strings are compared rank by rank after the ignored
  code units are removed.
\<close>

definition superscriptRank :: "nat \<Rightarrow> nat" where
  "superscriptRank c = (if c = 178 then 2 * 50 + 1 else 2 * c)"

fun rankCompare :: "(nat \<Rightarrow> nat) \<Rightarrow> jsString \<Rightarrow> jsString \<Rightarrow> int" where
  "rankCompare rank [] [] = 0"
| "rankCompare rank [] (y # ys) = -1"
| "rankCompare rank (x # xs) [] = 1"
| "rankCompare rank (x # xs) (y # ys) =
     (if rank x < rank y then -1
      else if rank y < rank x then 1
      else rankCompare rank xs ys)"

definition unicodeCompare :: "jsString \<Rightarrow> jsString \<Rightarrow> int" where
  "unicodeCompare x y =
     rankCompare superscriptRank (filter (\<lambda>c. c \<noteq> 173) x) (filter (\<lambda>c. c \<noteq> 173) y)"

text \<open>
  What ECMAScript asks of \<open>localeCompare\<close>: it is a consistent comparator, the one of a
  total preorder. A string ties with itself, swapping the arguments swaps the sign,
  and \<open>\<le>\<close> is transitive.
\<close>

definition collation :: "(jsString \<Rightarrow> jsString \<Rightarrow> int) \<Rightarrow> bool" where
  "collation lc =
     ((\<forall>x. lc x x = 0)
      \<and> (\<forall>x y. (lc x y < 0) = (0 < lc y x))
      \<and> (\<forall>x y z. lc x y \<le> 0 \<and> lc y z \<le> 0 \<longrightarrow> lc x z \<le> 0))"

text \<open>
  A further property, which a host's collation need not have for every string. A run
  keeps apart from the digits when it is a run of digits, or sorts strictly before
  every run of digits or strictly after every run of digits. A name does when all its
  runs do, and the empty string that stands for a missing part. The collation does
  when every string without a digit does.
\<close>

definition apartRun :: "(jsString \<Rightarrow> jsString \<Rightarrow> int) \<Rightarrow> jsString \<Rightarrow> bool" where
  "apartRun lc n =
     (isDigits n
      \<or> (\<forall>d e. isDigits d \<and> isDigits e \<longrightarrow>
            (lc n d < 0 \<and> lc n e < 0) \<or> (0 < lc n d \<and> 0 < lc n e)))"

definition apartName :: "(jsString \<Rightarrow> jsString \<Rightarrow> int) \<Rightarrow> jsString \<Rightarrow> bool" where
  "apartName lc a = (apartRun lc [] \<and> list_all (apartRun lc) (matchRuns a))"

definition digitsApart :: "(jsString \<Rightarrow> jsString \<Rightarrow> int) \<Rightarrow> bool" where
  "digitsApart lc = (\<forall>n. list_all (\<lambda>c. \<not> isDigitChar c) n \<longrightarrow> apartRun lc n)"

text \<open>
  Notions for the proofs. A part is what \<open>matchRuns\<close> produces, or the empty string
  read past the end of a list of parts: a run of digits, or a string without digits.
  \<open>partAtHead\<close> is \<open>parts[0] || ""\<close>. A run is finite unless it is a run of digits that
  \<open>parseInt\<close> reads as \<open>Infinity\<close>.
\<close>

definition isPart :: "jsString \<Rightarrow> bool" where
  "isPart p = (isDigits p \<or> list_all (\<lambda>c. \<not> isDigitChar c) p)"

definition partAtHead :: "jsString list \<Rightarrow> jsString" where
  "partAtHead parts = (case parts of [] \<Rightarrow> [] | p # _ \<Rightarrow> p)"

definition finiteRun :: "jsString \<Rightarrow> bool" where
  "finiteRun p = (\<not> isDigits p \<or> parseInt p \<noteq> PosInfinity)"

text \<open>The numbers \<open>parseInt\<close> gives for a run of digits are finite or \<open>Infinity\<close>.\<close>

definition parsed :: "number \<Rightarrow> bool" where
  "parsed n = (n \<noteq> NaN \<and> n \<noteq> NegInfinity)"

section \<open>ComicService: extraction (comicService.ts)\<close>

text \<open>
  \<open>String.prototype.toLowerCase\<close> belongs to the host; it maps every code point to its
  lower case in the Unicode tables. The model has the part of the mapping that bears
  on a comparison with the six extensions. The letters \<open>A\<close> to \<open>Z\<close> map to \<open>a\<close> to \<open>z\<close>.
  The capital I with a dot above (code 130 hexadecimal, 304) maps to two code units,
  \<open>i\<close> and the combining dot above (code 307 hexadecimal, 775): it is the letter whose
  lower case is longer than the letter. Every other code unit is left as it is: the
  host also maps letters outside ASCII to their lower case, which keeps the number
  of code units and gives neither a dot nor a letter of the six extensions, so the
  comparison with the extensions comes out the same.
\<close>

definition lowerLetter :: "nat \<Rightarrow> nat" where
  "lowerLetter c = (if 65 \<le> c \<and> c \<le> 90 then c + 32 else c)"

definition lowerUnit :: "nat \<Rightarrow> jsString" where
  "lowerUnit c = (if c = 304 then [105, 775] else [lowerLetter c])"

definition toLowerCase :: "jsString \<Rightarrow> jsString" where
  "toLowerCase s = concat (map lowerUnit s)"

text \<open>\<open>lastIndexOf\<close>: the last position of the code unit, or \<open>-1\<close>. The helper scans
  from position \<open>i\<close> on and keeps the last position found so far.\<close>

fun lastIndexFrom :: "jsString \<Rightarrow> nat \<Rightarrow> nat \<Rightarrow> int \<Rightarrow> int" where
  "lastIndexFrom [] c i found = found"
| "lastIndexFrom (x # xs) c i found =
     lastIndexFrom xs c (Suc i) (if x = c then int i else found)"

definition lastIndexOf :: "jsString \<Rightarrow> nat \<Rightarrow> int" where
  "lastIndexOf s c = lastIndexFrom s c 0 (-1)"

text \<open>\<open>substring(start)\<close>: a start below 0 counts as 0, one above the length as the
  length.\<close>

definition substring :: "jsString \<Rightarrow> int \<Rightarrow> jsString" where
  "substring s start = drop (nat (min (max start 0) (int (length s)))) s"

definition imageExtensions :: "jsString list" where
  "imageExtensions =
     [str ''.jpg'', str ''.jpeg'', str ''.png'', str ''.gif'', str ''.bmp'', str ''.webp'']"

text \<open>The dot has code 46. Its last index is taken in the name as it is, and the
  substring from that index in the lower-cased name.\<close>

definition isImageFile :: "jsString \<Rightarrow> bool" where
  "isImageFile fileName =
     (let extension = substring (toLowerCase fileName) (lastIndexOf fileName 46)
      in extension \<in> set imageExtensions)"

text \<open>
  What "the extension, case-insensitively, is one of the six" says, in the spec's
  words and without reference to \<open>toLowerCase\<close>: the name ends with one of the six,
  where in place of a small letter of the extension the name may have the capital
  letter, whose code is 32 less.
\<close>

definition sameLetter :: "nat \<Rightarrow> nat \<Rightarrow> bool" where
  "sameLetter c e = (c = e \<or> (97 \<le> e \<and> e \<le> 122 \<and> c + 32 = e))"

definition hasImageExtension :: "jsString \<Rightarrow> bool" where
  "hasImageExtension fileName =
     (\<exists>e \<in> set imageExtensions.
        length e \<le> length fileName
        \<and> list_all2 sameLetter (drop (length fileName - length e) fileName) e)"

text \<open>
  \<open>Array.prototype.sort(compareFn)\<close> belongs to the host. It is a stable sort, and it
  reads a result of \<open>compareFn\<close> that is \<open>NaN\<close> as 0. For a \<open>compareFn\<close> that is
  consistent on the elements, it arranges them so that none is followed by one that
  \<open>compareFn\<close> puts before it, and elements that tie keep their order: there is one
  such arrangement, the one this insertion of each element before the sorted rest
  computes. For a \<open>compareFn\<close> that is not consistent ECMAScript leaves the order to
  the host; the model keeps the insertion.
\<close>

fun insertSorted :: "('a \<Rightarrow> 'a \<Rightarrow> number) \<Rightarrow> 'a \<Rightarrow> 'a list \<Rightarrow> 'a list" where
  "insertSorted compareFn x [] = [x]"
| "insertSorted compareFn x (y # ys) =
     (if \<not> positive (compareFn x y) then x # y # ys else y # insertSorted compareFn x ys)"

definition arraySort :: "('a \<Rightarrow> 'a \<Rightarrow> number) \<Rightarrow> 'a list \<Rightarrow> 'a list" where
  "arraySort compareFn xs = foldr (insertSorted compareFn) xs []"

text \<open>
  What consistency on a set of elements asks of \<open>compareFn\<close>, as far as the order of
  the result goes: of two elements one is not put after the other, and "is not put
  after" is transitive.
\<close>

definition consistentOn :: "('a \<Rightarrow> 'a \<Rightarrow> number) \<Rightarrow> 'a set \<Rightarrow> bool" where
  "consistentOn compareFn s =
     ((\<forall>a \<in> s. \<forall>b \<in> s. positive (compareFn a b) \<longrightarrow> \<not> positive (compareFn b a))
      \<and> (\<forall>a \<in> s. \<forall>b \<in> s. \<forall>c \<in> s.
            \<not> positive (compareFn a b) \<and> \<not> positive (compareFn b c) \<longrightarrow>
            \<not> positive (compareFn a c)))"

text \<open>
  A loaded archive, \<open>zipFile.files\<close>: the entries by name, in the order of
  \<open>Object.keys\<close>. An entry has its \<open>dir\<close> flag and the outcome of \<open>file.async("blob")\<close>,
  which is rejected for an entry that cannot be decompressed. \<open>JSZip.loadAsync\<close> belongs
  to a library, the parameter \<open>loadAsync\<close>: it is rejected for a buffer that is not a ZIP
  container.
\<close>

type_synonym arrayBuffer = "nat list"

record zipEntry =
  dir :: bool
  async_blob :: "blob promise"

type_synonym zipFiles = "(jsString \<times> zipEntry) list"

text \<open>
  The browser state extraction writes to: the blobs that hold an object URL, in the
  order of their allocation, and the lines logged to the console. The URL of the
  \<open>n\<close>-th allocation is \<open>blob:n\<close>.
\<close>

record browser =
  objectURLs :: "blob list"
  console :: "jsString list"

text \<open>Decimal digits of a number, as a template literal renders it.\<close>

function decimal :: "nat \<Rightarrow> string" where
  "decimal n =
     (if n < 10 then [''0123456789'' ! n]
      else decimal (n div 10) @ [''0123456789'' ! (n mod 10)])"
  by pat_completeness auto
termination
  by (relation "measure id") auto

declare decimal.simps [simp del]

definition createObjectURL :: "browser \<Rightarrow> blob \<Rightarrow> string \<times> browser" where
  "createObjectURL br b =
     (''blob:'' @ decimal (length (objectURLs br)), br\<lparr>objectURLs := objectURLs br @ [b]\<rparr>)"

text \<open>\<open>console.warn\<close> and \<open>console.error\<close> append a line to the console: their first
  argument. The error object that follows it is not modelled.\<close>

definition warn :: "browser \<Rightarrow> jsString \<Rightarrow> browser" where
  "warn br line = br\<lparr>console := console br @ [line]\<rparr>"

text \<open>
  \<open>zipFile.files[fileName].async("blob")\<close>. Reading a property of a missing entry
  throws; this cannot happen for a name taken from the keys.
\<close>

definition asyncBlob :: "zipFiles \<Rightarrow> jsString \<Rightarrow> blob promise" where
  "asyncBlob files fileName =
     (case map_of files fileName of
        Some file \<Rightarrow> async_blob file
      | None \<Rightarrow> Inl (Error ''TypeError''))"

text \<open>
  The loop \<open>for (let i = 0; i < imageFiles.length; i++)\<close> from index \<open>i\<close> on, with the
  pages pushed so far. A rejected blob is caught by the inner \<open>catch\<close>: a warning is
  logged and nothing is pushed.
\<close>

fun extractLoop ::
  "zipFiles \<Rightarrow> string \<Rightarrow> nat \<Rightarrow> jsString list \<Rightarrow> Page list \<times> browser \<Rightarrow> Page list \<times> browser" where
  "extractLoop files comicId i [] acc = acc"
| "extractLoop files comicId i (fileName # rest) (pgs, br) =
     (case asyncBlob files fileName of
        Inr blob \<Rightarrow>
          (let (url, br') = createObjectURL br blob
           in extractLoop files comicId (Suc i) rest
                (pgs @ [\<lparr>page_id = comicId @ ''-page-'' @ decimal i, page_blob = blob,
                          page_url = url, page_index = int i\<rparr>], br'))
      | Inl error \<Rightarrow>
          extractLoop files comicId (Suc i) rest
            (pgs, warn br (str ''Failed to extract page '' @ fileName @ str '':'')))"

text \<open>Whether an entry's blob is fulfilled, and the page the loop builds at index \<open>k\<close>
  for the entry \<open>fileName\<close> when it is, without its URL.\<close>

definition materializes :: "zipFiles \<Rightarrow> jsString \<Rightarrow> bool" where
  "materializes files fileName =
     (case asyncBlob files fileName of Inr blob \<Rightarrow> True | Inl error \<Rightarrow> False)"

definition pageAt :: "zipFiles \<Rightarrow> string \<Rightarrow> nat \<times> jsString \<Rightarrow> (int \<times> string \<times> blob) option" where
  "pageAt files comicId kn =
     (case asyncBlob files (snd kn) of
        Inr blob \<Rightarrow> Some (int (fst kn), comicId @ ''-page-'' @ decimal (fst kn), blob)
      | Inl error \<Rightarrow> None)"

definition pageCore :: "Page \<Rightarrow> int \<times> string \<times> blob" where
  "pageCore p = (page_index p, page_id p, page_blob p)"

text \<open>The names kept and sorted: \<open>Object.keys(zipFile.files).filter(...).sort(...)\<close>.\<close>

definition imageFiles :: "(jsString \<Rightarrow> jsString \<Rightarrow> int) \<Rightarrow> zipFiles \<Rightarrow> jsString list" where
  "imageFiles lc files =
     arraySort (naturalSort lc)
       (filter (\<lambda>fileName. case map_of files fileName of
                   Some file \<Rightarrow> \<not> dir file \<and> isImageFile fileName
                 | None \<Rightarrow> False)
          (map fst files))"

definition extractPagesFromCBR ::
  "(jsString \<Rightarrow> jsString \<Rightarrow> int) \<Rightarrow> (arrayBuffer \<Rightarrow> zipFiles promise) \<Rightarrow> browser \<Rightarrow>
   arrayBuffer \<Rightarrow> string \<Rightarrow> Page list promise \<times> browser" where
  "extractPagesFromCBR lc loadAsync br arrayBuffer comicId =
     (case loadAsync arrayBuffer of
        Inl e \<Rightarrow>
          (Inl (Error ''Failed to extract pages from comic file''),
           warn br (str ''Failed to extract pages from CBR:''))
      | Inr files \<Rightarrow>
          (let (pgs, br') = extractLoop files comicId 0 (imageFiles lc files) ([], br)
           in (Inr pgs, br')))"

text \<open>
  Archives to run the extraction on. The first is the one of the spec's example,
  with entries \<open>003.png\<close>, \<open>001.jpg\<close>, \<open>cover.txt\<close> and \<open>002.webp\<close> in this order, none of
  them a directory, all of them readable. In the second the blob of \<open>002.jpg\<close> is
  rejected. The third has one entry, whose name is the capital I with a dot above
  followed by \<open>.JPG\<close>. The fourth has the entries \<open>9.jpg\<close>, \<open>10.jpg\<close> and the superscript
  two followed by \<open>.jpg\<close>.
\<close>

definition exampleArchive :: "blob \<Rightarrow> blob \<Rightarrow> blob \<Rightarrow> blob \<Rightarrow> zipFiles" where
  "exampleArchive b3 b1 bt b2 =
     [(str ''003.png'', \<lparr>dir = False, async_blob = Inr b3\<rparr>),
      (str ''001.jpg'', \<lparr>dir = False, async_blob = Inr b1\<rparr>),
      (str ''cover.txt'', \<lparr>dir = False, async_blob = Inr bt\<rparr>),
      (str ''002.webp'', \<lparr>dir = False, async_blob = Inr b2\<rparr>)]"

definition damagedArchive :: zipFiles where
  "damagedArchive =
     [(str ''002.jpg'', \<lparr>dir = False, async_blob = Inl (Error ''Corrupted zip'')\<rparr>),
      (str ''003.jpg'', \<lparr>dir = False, async_blob = Inr [30]\<rparr>),
      (str ''001.jpg'', \<lparr>dir = False, async_blob = Inr [10]\<rparr>)]"

definition dottedArchive :: zipFiles where
  "dottedArchive = [(304 # str ''.JPG'', \<lparr>dir = False, async_blob = Inr [10]\<rparr>)]"

definition superscriptArchive :: zipFiles where
  "superscriptArchive =
     [(str ''9.jpg'', \<lparr>dir = False, async_blob = Inr [10]\<rparr>),
      (str ''10.jpg'', \<lparr>dir = False, async_blob = Inr [20]\<rparr>),
      (178 # str ''.jpg'', \<lparr>dir = False, async_blob = Inr [30]\<rparr>)]"

definition newBrowser :: browser where
  "newBrowser = \<lparr>objectURLs = [], console = []\<rparr>"

section \<open>Library: opening a comic (Library.tsx)\<close>

text \<open>
  \<open>downloadAndOpenComic\<close>. \<open>driveService.downloadFile\<close> is the parameter \<open>downloadFile\<close>,
  rejected on a failed download. The outcome is what the user gets: nothing when the
  comic is already being downloaded, the error message set by the \<open>catch\<close>, or the
  comic handed to \<open>onOpenComic\<close>.
\<close>

datatype openOutcome = AlreadyDownloading | Failed string | Opened Comic

definition openedComic :: "openOutcome \<Rightarrow> Comic option" where
  "openedComic outcome = (case outcome of Opened c \<Rightarrow> Some c | _ \<Rightarrow> None)"

definition downloadAndOpenComic ::
  "(string \<Rightarrow> arrayBuffer promise) \<Rightarrow> (jsString \<Rightarrow> jsString \<Rightarrow> int) \<Rightarrow>
   (arrayBuffer \<Rightarrow> zipFiles promise) \<Rightarrow> string set \<Rightarrow> store \<times> browser \<Rightarrow> Comic \<Rightarrow>
   openOutcome \<times> store \<times> browser" where
  "downloadAndOpenComic downloadFile lc loadAsync downloadingComics sb comic =
     (let (st, br) = sb in
      if comic_id comic \<in> downloadingComics then (AlreadyDownloading, st, br)
      else case downloadFile (fileId comic) of
        Inl err \<Rightarrow>
          (Failed (''Failed to open '' @ comic_name comic @ ''. Please try again.''),
           st, warn br (str ''Failed to download comic:''))
      | Inr arrayBuffer \<Rightarrow>
          (case extractPagesFromCBR lc loadAsync br arrayBuffer (comic_id comic) of
             (Inl err, br') \<Rightarrow>
               (Failed (''Failed to open '' @ comic_name comic @ ''. Please try again.''),
                st, warn br' (str ''Failed to download comic:''))
           | (Inr pgs, br') \<Rightarrow>
               (let updatedComic =
                      comic\<lparr>pages := pgs, totalPages := int (length pgs), currentPage := 0\<rparr>;
                    updatedComic =
                      (case getComicProgress st (comic_id comic) of
                         Some progress \<Rightarrow>
                           updatedComic\<lparr>currentPage := progress_currentPage progress,
                                         lastRead := Some (progress_lastRead progress)\<rparr>
                       | None \<Rightarrow> updatedComic)
                in (Opened updatedComic, saveComic st updatedComic, br'))))"

text \<open>A comic as the library lists it, and a store that holds saved progress for it
  with \<open>currentPage = 5\<close>.\<close>

definition listedComic :: Comic where
  "listedComic =
     \<lparr>comic_id = ''c1'', comic_name = ''Issue 1'', fileId = ''c1'', seriesId = ''s1'',
      pages = [], currentPage = 0, totalPages = 0, lastRead = None\<rparr>"

definition storeAtPage5 :: store where
  "storeAtPage5 =
     \<lparr>SERIES = None,
      COMIC_PROGRESS =
        Some [''c1'' \<mapsto> \<lparr>progress_currentPage = 5, progress_lastRead = 1000\<rparr>]\<rparr>"

section \<open>ComicService: prefetching (comicService.ts)\<close>






section \<open>Reading session (ComicReader.tsx)\<close>

datatype fitMode = FitWidth | FitHeight | FitPage
datatype pageLayout = Single | Double | Continuous
datatype readingDirection = LTR | RTL

record ReadingSettings =
  settings_fitMode :: fitMode
  settings_pageLayout :: pageLayout
  settings_readingDirection :: readingDirection
  backgroundColor :: string
  showProgress :: bool

text \<open>
  The \<open>useState\<close> cells that navigation and zoom read and write, as one render of the
  component sees them: \<open>currentPageIndex\<close>, \<open>zoom\<close>, \<open>position\<close> and \<open>isFullscreen\<close>. Zoom
  and pan are real numbers.

  A handler is a closure of the render that created it: it reads the cells and the
  props of that render, and the setters it calls write the cells as they are when it
  runs. So a handler takes the render it belongs to (the argument \<open>render\<close>) and the
  current cells, and gives the cells its setter calls leave behind. The handlers that
  are attached anew at every render, the \<open>onClick\<close> handlers of the buttons and the
  gesture handlers, run in the latest render, whose cells are the current ones.
\<close>

record session =
  currentPageIndex :: int
  zoom :: real
  position :: "real \<times> real"
  isFullscreen :: bool

definition initialSession :: "Comic \<Rightarrow> session" where
  "initialSession comic =
     \<lparr>currentPageIndex = currentPage comic, zoom = 1, position = (0, 0),
      isFullscreen = False\<rparr>"

definition isContinuousMode :: "ReadingSettings \<Rightarrow> bool" where
  "isContinuousMode rs = (settings_pageLayout rs = Continuous)"

definition resetView :: "session \<Rightarrow> session" where
  "resetView s = s\<lparr>zoom := 1, position := (0, 0)\<rparr>"

text \<open>In continuous mode \<open>nextPage\<close> and \<open>previousPage\<close> only ask the browser to scroll
  a neighbouring image into view; no cell is written.\<close>

definition nextPage :: "Comic \<Rightarrow> ReadingSettings \<Rightarrow> session \<Rightarrow> session \<Rightarrow> session" where
  "nextPage comic rs render s =
     (if isContinuousMode rs then s
      else if settings_readingDirection rs = RTL then
        (if currentPageIndex render > 0
         then resetView (s\<lparr>currentPageIndex := currentPageIndex render - 1\<rparr>) else s)
      else
        (if currentPageIndex render < totalPages comic - 1
         then resetView (s\<lparr>currentPageIndex := currentPageIndex render + 1\<rparr>) else s))"

definition previousPage :: "Comic \<Rightarrow> ReadingSettings \<Rightarrow> session \<Rightarrow> session \<Rightarrow> session" where
  "previousPage comic rs render s =
     (if isContinuousMode rs then s
      else if settings_readingDirection rs = RTL then
        (if currentPageIndex render < totalPages comic - 1
         then resetView (s\<lparr>currentPageIndex := currentPageIndex render + 1\<rparr>) else s)
      else
        (if currentPageIndex render > 0
         then resetView (s\<lparr>currentPageIndex := currentPageIndex render - 1\<rparr>) else s))"

definition zoomIn :: "ReadingSettings \<Rightarrow> session \<Rightarrow> session \<Rightarrow> session" where
  "zoomIn rs render s =
     (if isContinuousMode rs then s
      else (let newZoom = min 5 (zoom render * 1.5) in s\<lparr>zoom := newZoom\<rparr>))"

definition zoomOut :: "ReadingSettings \<Rightarrow> session \<Rightarrow> session \<Rightarrow> session" where
  "zoomOut rs render s =
     (if isContinuousMode rs then s
      else (let newZoom = max 0.5 (zoom render / 1.5) in
            if newZoom \<le> 1 then s\<lparr>zoom := newZoom, position := (0, 0)\<rparr>
            else s\<lparr>zoom := newZoom\<rparr>))"

text \<open>\<open>toggleFullscreen\<close> reads \<open>document.fullscreenElement\<close>, the argument
  \<open>fullscreenElement\<close>: whether some element is shown full screen.\<close>

definition toggleFullscreen :: "bool \<Rightarrow> session \<Rightarrow> session" where
  "toggleFullscreen fullscreenElement s =
     (if \<not> fullscreenElement then s\<lparr>isFullscreen := True\<rparr>
      else s\<lparr>isFullscreen := False\<rparr>)"

text \<open>The gesture handlers: \<open>onPinch\<close> receives the pinch scale, \<open>onWheel\<close> the vertical
  wheel delta and the state of the Ctrl key, \<open>onDrag\<close> the drag offset and whether a
  pinch is in progress. \<open>onPinch\<close> reads no cell but for the animation.\<close>

definition onPinch :: "ReadingSettings \<Rightarrow> real \<Rightarrow> session \<Rightarrow> session" where
  "onPinch rs scale s =
     (if isContinuousMode rs then s
      else (let newZoom = max 0.5 (min 5 scale) in
            if newZoom \<le> 1 then s\<lparr>zoom := newZoom, position := (0, 0)\<rparr>
            else s\<lparr>zoom := newZoom\<rparr>))"

definition onWheel :: "ReadingSettings \<Rightarrow> real \<Rightarrow> bool \<Rightarrow> session \<Rightarrow> session \<Rightarrow> session" where
  "onWheel rs dy ctrlKey render s =
     (if isContinuousMode rs then s
      else if ctrlKey then
        (let newZoom = max 0.5 (min 5 (zoom render - dy * 0.001)) in
         if newZoom \<le> 1 then s\<lparr>zoom := newZoom, position := (0, 0)\<rparr>
         else s\<lparr>zoom := newZoom\<rparr>)
      else s)"

definition onDrag ::
  "ReadingSettings \<Rightarrow> real \<times> real \<Rightarrow> bool \<Rightarrow> session \<Rightarrow> session \<Rightarrow> session" where
  "onDrag rs offset pinching render s =
     (if pinching \<or> zoom render \<le> 1 \<or> isContinuousMode rs then s
      else s\<lparr>position := offset\<rparr>)"

text \<open>
  The scroll observer of continuous mode: \<open>found\<close> is the index of the image whose
  vertical extent contains the centre of the viewport, found by the loop over
  \<open>imageRefs\<close> (\<open>None\<close> when no image does). The listener is installed in continuous mode
  only.
\<close>

definition handleScroll ::
  "ReadingSettings \<Rightarrow> int option \<Rightarrow> session \<Rightarrow> session \<Rightarrow> session" where
  "handleScroll rs found render s =
     (if \<not> isContinuousMode rs then s
      else case found of
        None \<Rightarrow> s
      | Some i \<Rightarrow> (if i \<noteq> currentPageIndex render then s\<lparr>currentPageIndex := i\<rparr> else s))"

text \<open>
  \<open>handleKeyPress\<close>, the \<open>keydown\<close> listener, for the key \<open>e.key\<close>. \<open>Escape\<close> outside full
  screen calls \<open>onBack\<close>, which leaves the reader and writes no cell.
\<close>

definition handleKeyPress ::
  "Comic \<Rightarrow> ReadingSettings \<Rightarrow> string \<Rightarrow> bool \<Rightarrow> session \<Rightarrow> session \<Rightarrow> session" where
  "handleKeyPress comic rs key fullscreenElement render s =
     (if key = ''ArrowLeft'' then previousPage comic rs render s
      else if key = ''ArrowRight'' \<or> key = '' '' then nextPage comic rs render s
      else if key = ''Escape'' then
        (if isFullscreen render then toggleFullscreen fullscreenElement s else s)
      else if key = ''+'' \<or> key = ''='' then zoomIn rs render s
      else if key = ''-'' then zoomOut rs render s
      else if key = ''0'' then resetView s
      else if key = ''f'' then toggleFullscreen fullscreenElement s
      else s)"

text \<open>
  The mounted component. The \<open>keydown\<close> listener is registered by an effect with the
  dependency list \<open>[currentPageIndex, isFullscreen, onBack, previousPage, nextPage]\<close>:
  after a render in which none of these has changed, the listener of an earlier render
  stays registered, with the handlers of that render. \<open>keydown\<close> is the render whose
  listener is registered. \<open>previousPage\<close> and \<open>nextPage\<close> are memoized on
  \<open>currentPageIndex\<close> and on props, and \<open>onBack\<close> is made anew whenever the parent
  renders, which it does when the settings change; so the listener is registered anew
  when \<open>currentPageIndex\<close> or \<open>isFullscreen\<close> is written with a new value and when the
  settings change, and the props it reads are the current ones.
\<close>

record reader =
  cells :: session
  keydown :: session
  props :: ReadingSettings

definition mount :: "Comic \<Rightarrow> ReadingSettings \<Rightarrow> reader" where
  "mount comic rs =
     \<lparr>cells = initialSession comic, keydown = initialSession comic, props = rs\<rparr>"

text \<open>The render that follows a handler: the cells are the ones it left, and the
  effect registers the listener of this render if a dependency has changed.\<close>

definition commit :: "reader \<Rightarrow> session \<Rightarrow> reader" where
  "commit r s =
     r\<lparr>cells := s,
       keydown :=
         (if currentPageIndex s \<noteq> currentPageIndex (cells r)
             \<or> isFullscreen s \<noteq> isFullscreen (cells r)
          then s else keydown r)\<rparr>"

text \<open>What the user and the parent can do to the mounted component. The buttons and
  gestures run the handlers of the latest render, the keyboard the handlers of the
  render \<open>keydown\<close>.\<close>

datatype event =
    ClickNext | ClickPrevious | ClickZoomIn | ClickZoomOut | ClickReset
  | ClickFullscreen bool
  | Pinch real | Wheel real bool | Drag "real \<times> real" bool
  | Scroll "int option"
  | KeyDown string bool
  | SettingsChange ReadingSettings

fun step :: "Comic \<Rightarrow> reader \<Rightarrow> event \<Rightarrow> reader" where
  "step comic r ClickNext = commit r (nextPage comic (props r) (cells r) (cells r))"
| "step comic r ClickPrevious = commit r (previousPage comic (props r) (cells r) (cells r))"
| "step comic r ClickZoomIn = commit r (zoomIn (props r) (cells r) (cells r))"
| "step comic r ClickZoomOut = commit r (zoomOut (props r) (cells r) (cells r))"
| "step comic r ClickReset = commit r (resetView (cells r))"
| "step comic r (ClickFullscreen fullscreenElement) =
     commit r (toggleFullscreen fullscreenElement (cells r))"
| "step comic r (Pinch scale) = commit r (onPinch (props r) scale (cells r))"
| "step comic r (Wheel dy ctrlKey) = commit r (onWheel (props r) dy ctrlKey (cells r) (cells r))"
| "step comic r (Drag offset pinching) =
     commit r (onDrag (props r) offset pinching (cells r) (cells r))"
| "step comic r (Scroll found) = commit r (handleScroll (props r) found (cells r) (cells r))"
| "step comic r (KeyDown key fullscreenElement) =
     commit r (handleKeyPress comic (props r) key fullscreenElement (keydown r) (cells r))"
| "step comic r (SettingsChange rs) = r\<lparr>props := rs, keydown := cells r\<rparr>"

definition run :: "Comic \<Rightarrow> ReadingSettings \<Rightarrow> event list \<Rightarrow> reader" where
  "run comic rs events = foldl (step comic) (mount comic rs) events"

text \<open>The settings the application starts with, and a comic of five pages.\<close>

definition defaultSettings :: ReadingSettings where
  "defaultSettings =
     \<lparr>settings_fitMode = FitWidth, settings_pageLayout = Single,
      settings_readingDirection = LTR, backgroundColor = ''#000000'', showProgress = True\<rparr>"

definition fivePages :: Comic where
  "fivePages =
     \<lparr>comic_id = ''c'', comic_name = ''n'', fileId = ''c'', seriesId = ''s'', pages = [],
      currentPage = 0, totalPages = 5, lastRead = None\<rparr>"

text \<open>The range of the zoom factor.\<close>

definition zoomInRange :: "session \<Rightarrow> bool" where
  "zoomInRange s = (0.5 \<le> zoom s \<and> zoom s \<le> 5)"

text \<open>Whether an event comes from the keyboard, and the zoom range together with
  "a zoom of at most 1 comes with the pan offset \<open>(0, 0)\<close>".\<close>

fun fromKeyboard :: "event \<Rightarrow> bool" where
  "fromKeyboard (KeyDown key fullscreenElement) = True"
| "fromKeyboard e = False"

definition zoom_ok :: "session \<Rightarrow> bool" where
  "zoom_ok s = (zoomInRange s \<and> (1 < zoom s \<or> position s = (0, 0)))"

section \<open>Progress store: round trip and frame\<close>

text \<open>
  C8. For every store, comic id and progress record, saving the record with
  \<open>saveComicProgress\<close> and then reading the same comic id with \<open>getComicProgress\<close>
  returns that record: the same \<open>currentPage\<close> and the same \<open>lastRead\<close>.
\<close>

theorem progress_round_trip:
  "getComicProgress (saveComicProgress st comicId p) comicId = Some p
   \<and> map_option progress_currentPage
        (getComicProgress (saveComicProgress st comicId p) comicId)
       = Some (progress_currentPage p)
   \<and> map_option progress_lastRead
        (getComicProgress (saveComicProgress st comicId p) comicId)
       = Some (progress_lastRead p)"
  by (simp add: getComicProgress_def saveComicProgress_def)

text \<open>
  C10. For two distinct comic ids \<open>c\<close> and \<open>c'\<close>, saving progress for \<open>c\<close> leaves what
  \<open>getComicProgress\<close> returns for \<open>c'\<close> as it was before the save.
\<close>

theorem progress_save_frame:
  "c \<noteq> c' \<Longrightarrow>
   getComicProgress (saveComicProgress st c p) c' = getComicProgress st c'"
  by (simp add: getComicProgress_def saveComicProgress_def split: option.splits)

theorem progress_save_frame_witness:
  "''comicA'' \<noteq> ''comicB''
   \<and> getComicProgress
        (saveComicProgress
           \<lparr>SERIES = None,
            COMIC_PROGRESS = Some [''comicB'' \<mapsto> \<lparr>progress_currentPage = 7, progress_lastRead = 1000\<rparr>]\<rparr>
           ''comicA'' \<lparr>progress_currentPage = 2, progress_lastRead = 2000\<rparr>)
        ''comicB''
      = Some \<lparr>progress_currentPage = 7, progress_lastRead = 1000\<rparr>"
  using progress_save_frame [of "''comicA''" "''comicB''"
      "\<lparr>SERIES = None,
        COMIC_PROGRESS = Some [''comicB'' \<mapsto> \<lparr>progress_currentPage = 7, progress_lastRead = 1000\<rparr>]\<rparr>"
      "\<lparr>progress_currentPage = 2, progress_lastRead = 2000\<rparr>"]
  by (simp add: getComicProgress_def)

section \<open>Prefetch window\<close>






section \<open>Reading session: navigation and zoom\<close>

lemma run_snoc: "run comic rs (events @ [e]) = step comic (run comic rs events) e"
  by (simp add: run_def)

lemma commit_cursor:
  "currentPageIndex (keydown r) = currentPageIndex (cells r) \<Longrightarrow>
   currentPageIndex (keydown (commit r s)) = currentPageIndex (cells (commit r s))"
  by (simp add: commit_def)

lemma step_cursor:
  "currentPageIndex (keydown r) = currentPageIndex (cells r) \<Longrightarrow>
   currentPageIndex (keydown (step comic r e)) = currentPageIndex (cells (step comic r e))"
  by (cases e) (simp_all add: commit_cursor)

lemma keydown_cursor:
  "currentPageIndex (keydown (run comic rs events))
   = currentPageIndex (cells (run comic rs events))"
proof (induction events rule: rev_induct)
  case Nil
  show ?case by (simp add: run_def mount_def)
next
  case (snoc e events)
  then show ?case by (simp add: run_snoc step_cursor)
qed

lemma nextPage_render:
  "currentPageIndex render = currentPageIndex render' \<Longrightarrow>
   nextPage comic rs render s = nextPage comic rs render' s"
  by (simp add: nextPage_def)

lemma previousPage_render:
  "currentPageIndex render = currentPageIndex render' \<Longrightarrow>
   previousPage comic rs render s = previousPage comic rs render' s"
  by (simp add: previousPage_def)

text \<open>
  C4. Outside continuous mode, with the cursor at \<open>k\<close> and \<open>0 < k < totalPages - 1\<close>,
  \<open>nextPage\<close> moves the cursor to \<open>k + 1\<close> when the reading direction is \<open>ltr\<close> and to
  \<open>k - 1\<close> when it is \<open>rtl\<close>. With direction \<open>ltr\<close>, \<open>previousPage\<close> at cursor 0 and
  \<open>nextPage\<close> at cursor \<open>totalPages - 1\<close> leave the cells unchanged. This is so for the
  handlers of the latest render, which the buttons call, and the keys \<open>ArrowRight\<close>,
  space and \<open>ArrowLeft\<close> do the same as the buttons, whatever happened since the
  component was mounted.
\<close>

theorem navigation_single_page:
  "\<not> isContinuousMode rs \<Longrightarrow>
   (0 < currentPageIndex s \<and> currentPageIndex s < totalPages comic - 1 \<longrightarrow>
      (settings_readingDirection rs = LTR \<longrightarrow>
         currentPageIndex (nextPage comic rs s s) = currentPageIndex s + 1) \<and>
      (settings_readingDirection rs = RTL \<longrightarrow>
         currentPageIndex (nextPage comic rs s s) = currentPageIndex s - 1))
   \<and> (settings_readingDirection rs = LTR \<and> currentPageIndex s = 0 \<longrightarrow>
        previousPage comic rs s s = s)
   \<and> (settings_readingDirection rs = LTR \<and> currentPageIndex s = totalPages comic - 1 \<longrightarrow>
        nextPage comic rs s s = s)
   \<and> step comic (run comic rs0 events) (KeyDown ''ArrowRight'' fe)
       = step comic (run comic rs0 events) ClickNext
   \<and> step comic (run comic rs0 events) (KeyDown '' '' fe)
       = step comic (run comic rs0 events) ClickNext
   \<and> step comic (run comic rs0 events) (KeyDown ''ArrowLeft'' fe)
       = step comic (run comic rs0 events) ClickPrevious"
proof -
  assume single: "\<not> isContinuousMode rs"
  let ?r = "run comic rs0 events"
  have k: "currentPageIndex (keydown ?r) = currentPageIndex (cells ?r)"
    by (rule keydown_cursor)
  have n: "nextPage comic (props ?r) (keydown ?r) (cells ?r)
      = nextPage comic (props ?r) (cells ?r) (cells ?r)"
    using k by (rule nextPage_render)
  have p: "previousPage comic (props ?r) (keydown ?r) (cells ?r)
      = previousPage comic (props ?r) (cells ?r) (cells ?r)"
    using k by (rule previousPage_render)
  from single n p show ?thesis
    by (simp add: nextPage_def previousPage_def resetView_def handleKeyPress_def)
qed

theorem navigation_single_page_witness:
  "\<not> isContinuousMode defaultSettings
   \<and> \<not> isContinuousMode (defaultSettings\<lparr>settings_readingDirection := RTL\<rparr>)
   \<and> currentPageIndex (nextPage fivePages defaultSettings
        \<lparr>currentPageIndex = 2, zoom = 2, position = (3, 4), isFullscreen = False\<rparr>
        \<lparr>currentPageIndex = 2, zoom = 2, position = (3, 4), isFullscreen = False\<rparr>) = 3
   \<and> currentPageIndex (nextPage fivePages (defaultSettings\<lparr>settings_readingDirection := RTL\<rparr>)
        \<lparr>currentPageIndex = 2, zoom = 2, position = (3, 4), isFullscreen = False\<rparr>
        \<lparr>currentPageIndex = 2, zoom = 2, position = (3, 4), isFullscreen = False\<rparr>) = 1
   \<and> previousPage fivePages defaultSettings
        \<lparr>currentPageIndex = 0, zoom = 2, position = (3, 4), isFullscreen = False\<rparr>
        \<lparr>currentPageIndex = 0, zoom = 2, position = (3, 4), isFullscreen = False\<rparr>
       = \<lparr>currentPageIndex = 0, zoom = 2, position = (3, 4), isFullscreen = False\<rparr>
   \<and> nextPage fivePages defaultSettings
        \<lparr>currentPageIndex = 4, zoom = 2, position = (3, 4), isFullscreen = False\<rparr>
        \<lparr>currentPageIndex = 4, zoom = 2, position = (3, 4), isFullscreen = False\<rparr>
       = \<lparr>currentPageIndex = 4, zoom = 2, position = (3, 4), isFullscreen = False\<rparr>
   \<and> currentPageIndex (cells (run fivePages defaultSettings
        [ClickNext, KeyDown ''ArrowRight'' False, ClickZoomIn, KeyDown '' '' False])) = 3"
proof -
  let ?rtl = "defaultSettings\<lparr>settings_readingDirection := RTL\<rparr>"
  have modes: "\<not> isContinuousMode defaultSettings" "\<not> isContinuousMode ?rtl"
    by (simp_all add: isContinuousMode_def defaultSettings_def)
  have dirs: "settings_readingDirection defaultSettings = LTR"
    "settings_readingDirection ?rtl = RTL"
    by (simp_all add: defaultSettings_def)
  have total: "totalPages fivePages = 5" by (simp add: fivePages_def)
  have keys: "currentPageIndex (cells (run fivePages defaultSettings
        [ClickNext, KeyDown ''ArrowRight'' False, ClickZoomIn, KeyDown '' '' False])) = 3"
    by (simp add: run_def mount_def initialSession_def fivePages_def defaultSettings_def
        commit_def nextPage_def resetView_def zoomIn_def handleKeyPress_def isContinuousMode_def)
  from navigation_single_page [OF modes(1), of
        "\<lparr>currentPageIndex = 2, zoom = 2, position = (3, 4), isFullscreen = False\<rparr>" fivePages]
    navigation_single_page [OF modes(2), of
        "\<lparr>currentPageIndex = 2, zoom = 2, position = (3, 4), isFullscreen = False\<rparr>" fivePages]
    navigation_single_page [OF modes(1), of
        "\<lparr>currentPageIndex = 0, zoom = 2, position = (3, 4), isFullscreen = False\<rparr>" fivePages]
    navigation_single_page [OF modes(1), of
        "\<lparr>currentPageIndex = 4, zoom = 2, position = (3, 4), isFullscreen = False\<rparr>" fivePages]
    modes dirs total keys
  show ?thesis by simp
qed

lemma zoomInRange_handlers:
  assumes "zoomInRange render" "zoomInRange s"
  shows "zoomInRange (zoomIn rs render s)" "zoomInRange (zoomOut rs render s)"
    "zoomInRange (onPinch rs scale s)" "zoomInRange (onWheel rs dy ctrlKey render s)"
    "zoomInRange (onDrag rs offset pinching render s)" "zoomInRange (resetView s)"
    "zoomInRange (nextPage comic rs render s)" "zoomInRange (previousPage comic rs render s)"
    "zoomInRange (handleScroll rs found render s)" "zoomInRange (toggleFullscreen fe s)"
  using assms
  by (auto simp: zoomInRange_def zoomIn_def zoomOut_def onPinch_def onWheel_def onDrag_def
      resetView_def nextPage_def previousPage_def handleScroll_def toggleFullscreen_def
      Let_def min_def max_def split: option.splits)

lemma zoomInRange_handleKeyPress:
  "zoomInRange render \<Longrightarrow> zoomInRange s \<Longrightarrow>
   zoomInRange (handleKeyPress comic rs key fe render s)"
  by (simp add: handleKeyPress_def zoomInRange_handlers)

lemma zoomInRange_commit:
  "zoomInRange (keydown r) \<Longrightarrow> zoomInRange s \<Longrightarrow>
   zoomInRange (cells (commit r s)) \<and> zoomInRange (keydown (commit r s))"
  by (simp add: commit_def)

lemma zoomInRange_step:
  assumes "zoomInRange (cells r)" "zoomInRange (keydown r)"
  shows "zoomInRange (cells (step comic r e)) \<and> zoomInRange (keydown (step comic r e))"
proof (cases e)
  case (SettingsChange rs)
  with assms show ?thesis by simp
qed (use assms in \<open>simp_all add: zoomInRange_commit zoomInRange_handlers zoomInRange_handleKeyPress\<close>)

lemma zoomInRange_run:
  "zoomInRange (cells (run comic rs events)) \<and> zoomInRange (keydown (run comic rs events))"
proof (induction events rule: rev_induct)
  case Nil
  show ?case by (simp add: run_def mount_def initialSession_def zoomInRange_def)
next
  case (snoc e events)
  then show ?case by (simp add: run_snoc zoomInRange_step)
qed

lemma zoom_noop_continuous:
  "isContinuousMode rs \<Longrightarrow>
   zoomIn rs render s = s \<and> zoomOut rs render s = s \<and> onPinch rs scale s = s
   \<and> onWheel rs dy ctrlKey render s = s"
  by (simp add: zoomIn_def zoomOut_def onPinch_def onWheel_def)

lemma onPinch_idem: "onPinch rs x (onPinch rs x s) = onPinch rs x s"
  by (auto simp: onPinch_def Let_def)

lemma zoom_ok_handlers:
  assumes "zoom_ok s"
  shows "zoom_ok (zoomIn rs s s)" "zoom_ok (zoomOut rs s s)"
    "zoom_ok (onPinch rs scale s)" "zoom_ok (onWheel rs dy ctrlKey s s)"
    "zoom_ok (onDrag rs offset pinching s s)" "zoom_ok (resetView s)"
    "zoom_ok (nextPage comic rs s s)" "zoom_ok (previousPage comic rs s s)"
    "zoom_ok (handleScroll rs found s s)" "zoom_ok (toggleFullscreen fe s)"
  using assms
  by (auto simp: zoom_ok_def zoomInRange_def zoomIn_def zoomOut_def onPinch_def onWheel_def
      onDrag_def resetView_def nextPage_def previousPage_def handleScroll_def
      toggleFullscreen_def Let_def min_def max_def split: option.splits)

lemma zoom_ok_step:
  "zoom_ok (cells r) \<Longrightarrow> \<not> fromKeyboard e \<Longrightarrow> zoom_ok (cells (step comic r e))"
  by (cases e) (simp_all add: commit_def zoom_ok_handlers)

lemma zoom_ok_without_keys:
  "list_all (\<lambda>e. \<not> fromKeyboard e) events \<Longrightarrow> zoom_ok (cells (run comic rs events))"
proof (induction events rule: rev_induct)
  case Nil
  show ?case by (simp add: run_def mount_def initialSession_def zoom_ok_def zoomInRange_def)
next
  case (snoc e events)
  then show ?case by (simp add: run_snoc zoom_ok_step)
qed

text \<open>
  C6. What holds of the zoom operations after any sequence of events: the zoom lies in
  \<open>[0.5, 5]\<close>; in continuous mode \<open>zoomIn\<close>, \<open>zoomOut\<close>, \<open>onPinch\<close> and \<open>onWheel\<close> write no
  cell; and a pinch to the same scale applied twice gives the same cells as applied
  once. That a zoom of at most 1 comes with the pan offset \<open>(0, 0)\<close> holds as long as no
  key is pressed, and not in general: \<open>zoomIn\<close> never writes the pan offset, and the
  \<open>zoomIn\<close> that the key \<open>+\<close> calls is the one of the render in which the listener was
  registered, with the zoom of that render. After zooming out to 0.5 with the button,
  registering the listener anew by the key \<open>f\<close>, zooming in to 27/16 with the button and
  dragging the page to \<open>(50, 50)\<close>, the key \<open>+\<close> sets the zoom to \<open>0.5 * 1.5\<close> and leaves
  the pan offset where it is.
\<close>

theorem keyboard_zoomIn_keeps_pan:
  "cells (run fivePages defaultSettings
       [ClickZoomOut, ClickZoomOut, KeyDown ''f'' False,
        ClickZoomIn, ClickZoomIn, ClickZoomIn, Drag (50, 50) False, KeyDown ''+'' True])
   = \<lparr>currentPageIndex = 0, zoom = 3 / 4, position = (50, 50), isFullscreen = True\<rparr>
   \<and> zoomInRange (cells (run comic rs events))
   \<and> onPinch rs x (onPinch rs x s) = onPinch rs x s"
proof -
  have "cells (run fivePages defaultSettings
       [ClickZoomOut, ClickZoomOut, KeyDown ''f'' False,
        ClickZoomIn, ClickZoomIn, ClickZoomIn, Drag (50, 50) False, KeyDown ''+'' True])
   = \<lparr>currentPageIndex = 0, zoom = 3 / 4, position = (50, 50), isFullscreen = True\<rparr>"
    by (simp add: run_def mount_def initialSession_def fivePages_def defaultSettings_def
        commit_def zoomOut_def zoomIn_def handleKeyPress_def toggleFullscreen_def onDrag_def
        isContinuousMode_def)
  then show ?thesis
    using zoomInRange_run [of comic rs events] onPinch_idem [of rs x s] by simp
qed

section \<open>Rounding to a double\<close>

text \<open>
  Integers below \<open>2^53\<close> are doubles. Rounding keeps a positive integer positive, takes
  every integer from \<open>2^1024\<close> on to \<open>Infinity\<close> and none below \<open>10^308\<close>.
\<close>

lemma toNumber_cases: "toNumber n = PosInfinity \<or> (\<exists>m. toNumber n = Finite (int m))"
  by (simp add: toNumber_def)

lemma roundInteger_exact: "n < 2 ^ 53 \<Longrightarrow> roundInteger n = n"
  by (simp add: roundInteger_def)

lemma toNumber_exact: "n < 2 ^ 53 \<Longrightarrow> toNumber n = Finite (int n)"
  by (simp add: toNumber_def roundInteger_exact)

lemma roundInteger_lower:
  assumes "\<not> n < 2 ^ 53"
  shows "2 ^ (floorlog 2 n - 1) \<le> roundInteger n"
proof -
  define L where "L = floorlog 2 n"
  define ulp :: nat where "ulp = 2 ^ (L - 53)"
  define q where "q = n div ulp"
  from assms have pos: "0 < n" by (cases "n = 0") simp_all
  from assms have "(2::nat) ^ 53 \<le> n" by simp
  then have L: "54 \<le> L" unfolding L_def using floorlog_ge_SucI [of 2 53 n] by simp
  have low: "2 ^ (L - 1) \<le> n" unfolding L_def using floorlog_bounds [OF pos, of 2] by simp
  from L have "L - 1 = 52 + (L - 53)" by simp
  then have split: "(2::nat) ^ (L - 1) = 2 ^ 52 * ulp"
    unfolding ulp_def by (simp only: power_add)
  have "2 ^ 52 * ulp div ulp \<le> n div ulp"
    using low unfolding split by (rule div_le_mono)
  then have "2 ^ 52 \<le> q" unfolding q_def ulp_def by simp
  then have "2 ^ 52 * ulp \<le> q * ulp" by (rule mult_le_mono1)
  then have "2 ^ (L - 1) \<le> q * ulp" unfolding split .
  moreover have "q * ulp \<le> roundInteger n"
    using assms unfolding roundInteger_def Let_def q_def ulp_def L_def by simp
  ultimately show ?thesis unfolding L_def by simp
qed

lemma roundInteger_positive: "0 < n \<Longrightarrow> 0 < roundInteger n"
proof (cases "n < 2 ^ 53")
  case True
  assume "0 < n"
  with True show ?thesis by (simp add: roundInteger_exact)
next
  case False
  then have "2 ^ (floorlog 2 n - 1) \<le> roundInteger n" by (rule roundInteger_lower)
  moreover have "(0::nat) < 2 ^ (floorlog 2 n - 1)" by simp
  ultimately show ?thesis by linarith
qed

lemma toNumber_positive: "0 < n \<Longrightarrow> positive (toNumber n)"
  using roundInteger_positive [of n] by (simp add: toNumber_def)

lemma toNumber_overflow:
  assumes "2 ^ 1024 \<le> n"
  shows "toNumber n = PosInfinity"
proof -
  have big: "(2::nat) ^ 53 \<le> 2 ^ 1024" by (rule power_increasing) simp_all
  with assms have nl: "\<not> n < 2 ^ 53" by linarith
  from assms have "Suc 1024 \<le> floorlog 2 n" by (rule floorlog_ge_SucI) simp
  then have "(2::nat) ^ 1024 \<le> 2 ^ (floorlog 2 n - 1)" by (intro power_increasing) simp_all
  with roundInteger_lower [OF nl] have "2 ^ 1024 \<le> roundInteger n" by linarith
  then show ?thesis unfolding toNumber_def by (simp only: if_True)
qed

lemma roundInteger_upper:
  "roundInteger n \<le> n + 2 ^ (floorlog 2 n - 53)"
proof (cases "n < 2 ^ 53")
  case True
  then show ?thesis by (simp add: roundInteger_exact)
next
  case False
  define ulp :: nat where "ulp = 2 ^ (floorlog 2 n - 53)"
  have "n div ulp * ulp \<le> n" by simp
  then have "(n div ulp + 1) * ulp \<le> n + ulp" by simp
  moreover have "n div ulp * ulp \<le> n + ulp" by (simp add: trans_le_add1)
  ultimately show ?thesis
    using False unfolding roundInteger_def Let_def ulp_def by (simp del: add_mult_distrib mult_Suc)
qed

lemma toNumber_finite:
  assumes "n < 10 ^ 308"
  shows "toNumber n \<noteq> PosInfinity"
proof -
  have "(10::nat) ^ 308 \<le> 2 ^ 1024" by simp
  with assms have "n < 2 ^ 1024" by linarith
  then have "floorlog 2 n \<le> 1024" by (rule floorlog_leI) simp_all
  then have "(2::nat) ^ (floorlog 2 n - 53) \<le> 2 ^ 971" by (intro power_increasing) simp_all
  with roundInteger_upper [of n] assms have "roundInteger n < 10 ^ 308 + 2 ^ 971" by linarith
  moreover have "(10::nat) ^ 308 + 2 ^ 971 \<le> 2 ^ 1024" by simp
  ultimately have "\<not> 2 ^ 1024 \<le> roundInteger n" by linarith
  then show ?thesis unfolding toNumber_def by (simp only: if_False) simp
qed

section \<open>The natural comparator is a total preorder\<close>

lemma matchRuns_parts: "list_all (\<lambda>p. p \<noteq> [] \<and> isPart p) (matchRuns s)"
proof (induction s rule: matchRuns.induct)
  case 1
  show ?case by simp
next
  case (2 c cs)
  have d: "list_all isDigitChar (takeWhile isDigitChar cs)"
    by (auto simp: list_all_iff dest: set_takeWhileD)
  have n: "list_all (\<lambda>x. \<not> isDigitChar x) (takeWhile (\<lambda>x. \<not> isDigitChar x) cs)"
    by (auto simp: list_all_iff dest: set_takeWhileD)
  show ?case
  proof (cases "isDigitChar c")
    case True
    with 2 d show ?thesis by (simp add: isPart_def isDigits_def)
  next
    case False
    with 2 n show ?thesis by (simp add: isPart_def isDigits_def)
  qed
qed

lemma concat_matchRuns: "concat (matchRuns s) = s"
  by (induction s rule: matchRuns.induct) auto



lemma negative_negate: "negative (negate n) = positive n"
  by (cases n) simp_all

lemma positive_negate: "positive (negate n) = negative n"
  by (cases n) simp_all

lemma negate_eq_NaN: "(negate n = NaN) = (n = NaN)"
  by (cases n) simp_all

lemma toNumber_not_negative: "\<not> negative (toNumber n)"
  using toNumber_cases [of n] by auto

lemma toNumber_not_NaN: "toNumber n \<noteq> NaN"
  using toNumber_cases [of n] by auto

lemma negative_not_positive: "negative d \<Longrightarrow> \<not> positive d"
  by (cases d) simp_all

lemma not_positive_cases: "\<not> positive d \<Longrightarrow> negative d \<or> d = NaN \<or> d = Finite 0"
  by (cases d) auto

lemma numSub_Finite_negative: "negative (numSub (Finite x) (Finite y)) = (x < y)"
proof (cases "y \<le> x")
  case True
  then show ?thesis by (simp add: toNumber_not_negative)
next
  case False
  then have "0 < nat (y - x)" by simp
  then have "positive (toNumber (nat (y - x)))" by (rule toNumber_positive)
  with False show ?thesis by (simp add: negative_negate)
qed

lemma numSub_Finite_positive: "positive (numSub (Finite x) (Finite y)) = (y < x)"
proof (cases "y \<le> x")
  case le: True
  show ?thesis
  proof (cases "x = y")
    case True
    then show ?thesis by (simp add: toNumber_exact)
  next
    case False
    with le have "0 < nat (x - y)" by simp
    then have "positive (toNumber (nat (x - y)))" by (rule toNumber_positive)
    with le False show ?thesis by simp
  qed
next
  case False
  then show ?thesis by (simp add: positive_negate toNumber_not_negative)
qed

lemma numSub_Finite_NaN: "numSub (Finite x) (Finite y) \<noteq> NaN"
  by (simp add: toNumber_not_NaN negate_eq_NaN)

lemma numSub_Finite_zero: "(numSub (Finite x) (Finite y) = Finite 0) = (x = y)"
proof
  assume z: "numSub (Finite x) (Finite y) = Finite 0"
  have "\<not> x < y" using numSub_Finite_negative [of x y] unfolding z by simp
  moreover have "\<not> y < x" using numSub_Finite_positive [of x y] unfolding z by simp
  ultimately show "x = y" by simp
next
  assume "x = y"
  then show "numSub (Finite x) (Finite y) = Finite 0" by (simp add: toNumber_exact)
qed

lemma parsed_parseInt: "parsed (parseInt p)"
  using toNumber_cases [of "digitsValue p"] by (auto simp: parsed_def parseInt_def)

lemma numSub_trans:
  "parsed A \<Longrightarrow> parsed B \<Longrightarrow> parsed C \<Longrightarrow>
   \<not> positive (numSub A B) \<Longrightarrow> \<not> positive (numSub B C) \<Longrightarrow> \<not> positive (numSub A C)"
  by (cases A; cases B; cases C)
     (auto simp: parsed_def numSub_Finite_positive simp del: numSub.simps(1))

lemma numSub_anti:
  "parsed A \<Longrightarrow> parsed B \<Longrightarrow> negative (numSub A B) = positive (numSub B A)"
  by (cases A; cases B)
     (auto simp: parsed_def numSub_Finite_positive numSub_Finite_negative simp del: numSub.simps(1))

lemma numSub_NaN_iff:
  "parsed A \<Longrightarrow> parsed B \<Longrightarrow> (numSub A B = NaN) = (A = PosInfinity \<and> B = PosInfinity)"
  by (cases A; cases B)
     (auto simp: parsed_def numSub_Finite_NaN simp del: numSub.simps(1))

lemma numSub_zero_iff:
  "parsed A \<Longrightarrow> parsed B \<Longrightarrow> (numSub A B = Finite 0) = (A = B \<and> A \<noteq> PosInfinity)"
  by (cases A; cases B)
     (auto simp: parsed_def numSub_Finite_zero simp del: numSub.simps(1))

lemma comparePart_digits:
  "isDigits a \<Longrightarrow> isDigits b \<Longrightarrow> comparePart lc a b = numSub (parseInt a) (parseInt b)"
  by (simp add: comparePart_def)

lemma comparePart_other:
  "\<not> (isDigits a \<and> isDigits b) \<Longrightarrow> comparePart lc a b = Finite (lc a b)"
  by (auto simp: comparePart_def)

lemma comparePart_refl: "lc a a = 0 \<Longrightarrow> finiteRun a \<Longrightarrow> comparePart lc a a = Finite 0"
  using parsed_parseInt [of a]
  by (auto simp: comparePart_def finiteRun_def numSub_zero_iff)

lemma comparePart_self:
  "collation lc \<Longrightarrow> comparePart lc a a = Finite 0 \<or> comparePart lc a a = NaN"
  using parsed_parseInt [of a]
  by (auto simp: comparePart_def collation_def numSub_zero_iff numSub_NaN_iff)

lemma comparePart_NaN_iff:
  "(comparePart lc a b = NaN)
   = (isDigits a \<and> isDigits b \<and> parseInt a = PosInfinity \<and> parseInt b = PosInfinity)"
  using parsed_parseInt [of a] parsed_parseInt [of b]
  by (auto simp: comparePart_def numSub_NaN_iff)

lemma comparePart_anti:
  "collation lc \<Longrightarrow> negative (comparePart lc a b) = positive (comparePart lc b a)"
  using parsed_parseInt [of a] parsed_parseInt [of b]
  by (auto simp: comparePart_def collation_def numSub_anti)

lemma comparePart_zero_sym:
  assumes "collation lc"
  shows "(comparePart lc a b = Finite 0) = (comparePart lc b a = Finite 0)"
proof -
  have "comparePart lc y x = Finite 0" if z: "comparePart lc x y = Finite 0" for x y
  proof -
    have "\<not> positive (comparePart lc y x)"
      using comparePart_anti [OF assms, of x y] unfolding z by simp
    moreover have "\<not> negative (comparePart lc y x)"
      using comparePart_anti [OF assms, of y x] unfolding z by simp
    moreover have "comparePart lc y x \<noteq> NaN"
      using z unfolding comparePart_NaN_iff by (auto simp: comparePart_def)
    ultimately show ?thesis by (cases "comparePart lc y x") auto
  qed
  then show ?thesis by blast
qed

lemma comparePart_zero_finite:
  assumes lc: "collation lc"
    and parts: "apartRun lc a" "apartRun lc b"
    and z: "comparePart lc a b = Finite 0"
  shows "finiteRun a \<and> finiteRun b"
proof -
  have anti: "\<And>x y. (lc x y < 0) = (0 < lc y x)"
    using lc unfolding collation_def by blast
  have one: "finiteRun x" if "apartRun lc y" "comparePart lc x y = Finite 0" for x y
  proof (rule ccontr)
    assume "\<not> finiteRun x"
    then have x: "isDigits x" "parseInt x = PosInfinity" by (simp_all add: finiteRun_def)
    show False
    proof (cases "isDigits y")
      case True
      with x(1) that(2) have "numSub (parseInt x) (parseInt y) = Finite 0"
        by (simp add: comparePart_def)
      with numSub_zero_iff [OF parsed_parseInt parsed_parseInt, of x y] x(2) show False
        by simp
    next
      case False
      with that(1) x(1) have "(lc y x < 0 \<and> lc y x < 0) \<or> (0 < lc y x \<and> 0 < lc y x)"
        unfolding apartRun_def by blast
      moreover from False that(2) have "lc x y = 0" by (simp add: comparePart_def)
      with anti [of x y] anti [of y x] have "\<not> lc y x < 0" "\<not> 0 < lc y x" by simp_all
      ultimately show False by blast
    qed
  qed
  from z have z': "comparePart lc b a = Finite 0" using comparePart_zero_sym [OF lc] by blast
  from one [OF parts(2) z] one [OF parts(1) z'] show ?thesis by simp
qed

lemma comparePart_trans:
  assumes lc: "collation lc"
    and parts: "apartRun lc a" "apartRun lc b" "apartRun lc c"
    and le: "\<not> positive (comparePart lc a b)" "\<not> positive (comparePart lc b c)"
  shows "\<not> positive (comparePart lc a c)"
proof -
  have anti: "\<And>x y. (lc x y < 0) = (0 < lc y x)"
    and trans: "\<And>x y z. lc x y \<le> 0 \<Longrightarrow> lc y z \<le> 0 \<Longrightarrow> lc x z \<le> 0"
    using lc unfolding collation_def by blast+
  have apart: "\<And>n d e. \<not> isDigits n \<Longrightarrow> apartRun lc n \<Longrightarrow> isDigits d \<Longrightarrow> isDigits e \<Longrightarrow>
      (lc n d < 0 \<and> lc n e < 0) \<or> (0 < lc n d \<and> 0 < lc n e)"
    unfolding apartRun_def by blast
  consider (ddd) "isDigits a" "isDigits b" "isDigits c"
    | (ddn) "isDigits a" "isDigits b" "\<not> isDigits c"
    | (dnd) "isDigits a" "\<not> isDigits b" "isDigits c"
    | (ndd) "\<not> isDigits a" "isDigits b" "isDigits c"
    | (one) "\<not> (isDigits a \<and> isDigits b)" "\<not> (isDigits b \<and> isDigits c)" "\<not> (isDigits a \<and> isDigits c)"
    by blast
  then show ?thesis
  proof cases
    case ddd
    with le numSub_trans [OF parsed_parseInt [of a] parsed_parseInt [of b] parsed_parseInt [of c]]
    show ?thesis by (simp add: comparePart_def)
  next
    case ddn
    with le have "lc b c \<le> 0" by (simp add: comparePart_def)
    with anti [of c b] have "\<not> lc c b < 0" by simp
    with apart [OF ddn(3) parts(3) ddn(2) ddn(1)] have "0 < lc c a" by blast
    with anti [of a c] ddn show ?thesis by (simp add: comparePart_def)
  next
    case dnd
    with le have "lc a b \<le> 0" "lc b c \<le> 0" by (simp_all add: comparePart_def)
    with anti [of b a] have "\<not> lc b a < 0" "\<not> 0 < lc b c" by simp_all
    with apart [OF dnd(2) parts(2) dnd(1) dnd(3)] show ?thesis by blast
  next
    case ndd
    with le have "lc a b \<le> 0" by (simp add: comparePart_def)
    with apart [OF ndd(1) parts(1) ndd(2) ndd(3)] have "lc a c < 0" by linarith
    with ndd show ?thesis by (simp add: comparePart_def)
  next
    case one
    then have eqs: "comparePart lc a b = Finite (lc a b)" "comparePart lc b c = Finite (lc b c)"
      "comparePart lc a c = Finite (lc a c)"
      by (auto simp: comparePart_def)
    with le have "lc a b \<le> 0" "lc b c \<le> 0" by simp_all
    then have "lc a c \<le> 0" by (rule trans)
    with eqs show ?thesis by simp
  qed
qed

lemma comparePart_lt_le:
  assumes lc: "collation lc"
    and parts: "apartRun lc a" "apartRun lc b" "apartRun lc c"
    and le: "negative (comparePart lc a b)" "\<not> positive (comparePart lc b c)"
  shows "negative (comparePart lc a c)"
proof (rule ccontr)
  assume "\<not> negative (comparePart lc a c)"
  with comparePart_anti [OF lc, of a c] have "\<not> positive (comparePart lc c a)" by simp
  with le(2) have "\<not> positive (comparePart lc b a)"
    by (rule comparePart_trans [OF lc parts(2) parts(3) parts(1)])
  with comparePart_anti [OF lc, of a b] le(1) show False by simp
qed

lemma comparePart_le_lt:
  assumes lc: "collation lc"
    and parts: "apartRun lc a" "apartRun lc b" "apartRun lc c"
    and le: "\<not> positive (comparePart lc a b)" "negative (comparePart lc b c)"
  shows "negative (comparePart lc a c)"
proof (rule ccontr)
  assume "\<not> negative (comparePart lc a c)"
  with comparePart_anti [OF lc, of a c] have "\<not> positive (comparePart lc c a)" by simp
  from this le(1) have "\<not> positive (comparePart lc c b)"
    by (rule comparePart_trans [OF lc parts(3) parts(1) parts(2)])
  with comparePart_anti [OF lc, of b c] le(2) show False by simp
qed

lemma comparePart_eq_eq:
  assumes lc: "collation lc"
    and parts: "apartRun lc a" "apartRun lc b" "apartRun lc c"
    and eq: "comparePart lc a b = Finite 0" "comparePart lc b c = Finite 0"
  shows "comparePart lc a c = Finite 0"
proof -
  from eq have "\<not> positive (comparePart lc a c)"
    using comparePart_trans [OF lc parts] by simp
  moreover from eq have "comparePart lc c b = Finite 0" "comparePart lc b a = Finite 0"
    using comparePart_zero_sym [OF lc] by blast+
  then have "\<not> positive (comparePart lc c a)"
    using comparePart_trans [OF lc parts(3) parts(2) parts(1)] by simp
  then have "\<not> negative (comparePart lc a c)"
    using comparePart_anti [OF lc, of a c] by simp
  moreover have "finiteRun a"
    using comparePart_zero_finite [OF lc parts(1,2) eq(1)] by simp
  then have "comparePart lc a c \<noteq> NaN"
    unfolding comparePart_NaN_iff finiteRun_def by blast
  ultimately show ?thesis by (cases "comparePart lc a c") auto
qed

lemma comparePart_NaN_zero:
  assumes lc: "collation lc"
    and parts: "apartRun lc a" "apartRun lc b" "apartRun lc c"
  shows "\<not> (comparePart lc a b = NaN \<and> comparePart lc b c = Finite 0)"
    and "\<not> (comparePart lc a b = Finite 0 \<and> comparePart lc b c = NaN)"
proof -
  show "\<not> (comparePart lc a b = NaN \<and> comparePart lc b c = Finite 0)"
    using comparePart_zero_finite [OF lc parts(2,3)]
    unfolding comparePart_NaN_iff finiteRun_def by blast
  show "\<not> (comparePart lc a b = Finite 0 \<and> comparePart lc b c = NaN)"
    using comparePart_zero_finite [OF lc parts(1,2)]
    unfolding comparePart_NaN_iff finiteRun_def by blast
qed

lemma compareParts_unfold:
  assumes "collation lc"
  shows "compareParts lc xs ys =
    (if comparePart lc (partAtHead xs) (partAtHead ys) \<noteq> Finite 0
     then comparePart lc (partAtHead xs) (partAtHead ys)
     else compareParts lc (tl xs) (tl ys))"
proof -
  have "comparePart lc [] [] = Finite 0"
    using assms by (simp add: comparePart_def isDigits_def collation_def)
  then show ?thesis
    by (cases xs; cases ys) (simp_all add: partAtHead_def Let_def)
qed

lemma apartRun_partAtHead:
  "apartRun lc [] \<Longrightarrow> list_all (apartRun lc) xs \<Longrightarrow> apartRun lc (partAtHead xs)"
  by (cases xs) (simp_all add: partAtHead_def)

lemma list_all_tl: "list_all P xs \<Longrightarrow> list_all P (tl xs)"
  by (cases xs) simp_all

lemma compareParts_trans:
  assumes lc: "collation lc"
    and missing: "apartRun lc []"
  shows "list_all (apartRun lc) xs \<Longrightarrow> list_all (apartRun lc) ys \<Longrightarrow>
    list_all (apartRun lc) zs \<Longrightarrow>
    \<not> positive (compareParts lc xs ys) \<Longrightarrow> \<not> positive (compareParts lc ys zs) \<Longrightarrow>
    \<not> positive (compareParts lc xs zs)"
proof (induction "length xs + length ys + length zs" arbitrary: xs ys zs rule: less_induct)
  case less
  show ?case
  proof (cases "xs = [] \<and> ys = [] \<and> zs = []")
    case True
    then show ?thesis by simp
  next
    case False
    then have smaller: "length (tl xs) + length (tl ys) + length (tl zs)
        < length xs + length ys + length zs"
      by (cases xs; cases ys; cases zs) simp_all
    let ?a = "partAtHead xs" and ?b = "partAtHead ys" and ?c = "partAtHead zs"
    have parts: "apartRun lc ?a" "apartRun lc ?b" "apartRun lc ?c"
      using less.prems(1-3) missing by (simp_all add: apartRun_partAtHead)
    have tls: "list_all (apartRun lc) (tl xs)" "list_all (apartRun lc) (tl ys)"
      "list_all (apartRun lc) (tl zs)"
      using less.prems(1-3) by (simp_all add: list_all_tl)
    note u = compareParts_unfold [OF lc]
    have first: "negative (comparePart lc (partAtHead us) (partAtHead vs))
        \<or> comparePart lc (partAtHead us) (partAtHead vs) = NaN
        \<or> (comparePart lc (partAtHead us) (partAtHead vs) = Finite 0
             \<and> \<not> positive (compareParts lc (tl us) (tl vs)))"
      if "\<not> positive (compareParts lc us vs)" for us vs
      using that u [of us vs]
        not_positive_cases [of "comparePart lc (partAtHead us) (partAtHead vs)"]
      by (cases "comparePart lc (partAtHead us) (partAtHead vs) = Finite 0") auto
    have decided: "\<not> positive (compareParts lc xs zs)" if "negative (comparePart lc ?a ?c)"
    proof -
      from that have "comparePart lc ?a ?c \<noteq> Finite 0" by auto
      with u [of xs zs] that show ?thesis by (simp add: negative_not_positive)
    qed
    from first [OF less.prems(4)]
    consider (lt1) "negative (comparePart lc ?a ?b)"
      | (nan1) "comparePart lc ?a ?b = NaN"
      | (eq1) "comparePart lc ?a ?b = Finite 0" "\<not> positive (compareParts lc (tl xs) (tl ys))"
      by blast
    then show ?thesis
    proof cases
      case lt1
      from first [OF less.prems(5)] have "\<not> positive (comparePart lc ?b ?c)"
        by (auto simp: negative_not_positive)
      with lt1 have "negative (comparePart lc ?a ?c)"
        by (rule comparePart_lt_le [OF lc parts])
      then show ?thesis by (rule decided)
    next
      case nan1
      from first [OF less.prems(5)]
      consider (lt2) "negative (comparePart lc ?b ?c)"
        | (nan2) "comparePart lc ?b ?c = NaN"
        | (eq2) "comparePart lc ?b ?c = Finite 0"
        by blast
      then show ?thesis
      proof cases
        case lt2
        from nan1 have "\<not> positive (comparePart lc ?a ?b)" by simp
        from this lt2 have "negative (comparePart lc ?a ?c)"
          by (rule comparePart_le_lt [OF lc parts])
        then show ?thesis by (rule decided)
      next
        case nan2
        with nan1 have "comparePart lc ?a ?c = NaN" unfolding comparePart_NaN_iff by blast
        with u [of xs zs] show ?thesis by simp
      next
        case eq2
        with nan1 comparePart_NaN_zero(1) [OF lc parts] show ?thesis by blast
      qed
    next
      case eq1
      from first [OF less.prems(5)]
      consider (lt2) "negative (comparePart lc ?b ?c)"
        | (nan2) "comparePart lc ?b ?c = NaN"
        | (eq2) "comparePart lc ?b ?c = Finite 0" "\<not> positive (compareParts lc (tl ys) (tl zs))"
        by blast
      then show ?thesis
      proof cases
        case lt2
        from eq1(1) have "\<not> positive (comparePart lc ?a ?b)" by simp
        from this lt2 have "negative (comparePart lc ?a ?c)"
          by (rule comparePart_le_lt [OF lc parts])
        then show ?thesis by (rule decided)
      next
        case nan2
        with eq1(1) comparePart_NaN_zero(2) [OF lc parts] show ?thesis by blast
      next
        case eq2
        from eq1(1) eq2(1) have "comparePart lc ?a ?c = Finite 0"
          by (rule comparePart_eq_eq [OF lc parts])
        moreover have "\<not> positive (compareParts lc (tl xs) (tl zs))"
          using less.hyps [OF smaller tls eq1(2) eq2(2)] .
        ultimately show ?thesis using u [of xs zs] by simp
      qed
    qed
  qed
qed

lemma compareParts_mirror:
  assumes lc: "collation lc"
  shows "negative (compareParts lc xs ys) = positive (compareParts lc ys xs)
       \<and> (compareParts lc xs ys = NaN) = (compareParts lc ys xs = NaN)"
proof (induction "length xs + length ys" arbitrary: xs ys rule: less_induct)
  case less
  show ?case
  proof (cases "xs = [] \<and> ys = []")
    case True
    then show ?thesis by simp
  next
    case False
    then have smaller: "length (tl xs) + length (tl ys) < length xs + length ys"
      by (cases xs; cases ys) simp_all
    let ?a = "partAtHead xs" and ?b = "partAtHead ys"
    note u = compareParts_unfold [OF lc]
    show ?thesis
    proof (cases "comparePart lc ?a ?b = Finite 0")
      case True
      then have "comparePart lc ?b ?a = Finite 0" using comparePart_zero_sym [OF lc] by blast
      with True u [of xs ys] u [of ys xs] less.hyps [OF smaller] show ?thesis by simp
    next
      case False
      then have "comparePart lc ?b ?a \<noteq> Finite 0" using comparePart_zero_sym [OF lc] by blast
      with False u [of xs ys] u [of ys xs] comparePart_anti [OF lc, of ?a ?b]
        comparePart_NaN_iff [of lc ?a ?b] comparePart_NaN_iff [of lc ?b ?a]
      show ?thesis by auto
    qed
  qed
qed

lemma compareParts_refl:
  "(\<And>x. lc x x = 0) \<Longrightarrow> list_all finiteRun xs \<Longrightarrow> compareParts lc xs xs = Finite 0"
  by (induction xs) (simp_all add: comparePart_refl)

lemma compareParts_self:
  "collation lc \<Longrightarrow> compareParts lc xs xs = Finite 0 \<or> compareParts lc xs xs = NaN"
proof (induction xs)
  case Nil
  show ?case by simp
next
  case (Cons x xs)
  with comparePart_self [of lc x] show ?case by (auto simp: Let_def)
qed

section \<open>Collations\<close>

lemma ordinalCompare_refl: "ordinalCompare x x = 0"
  by (induction x) simp_all

lemma ordinalCompare_anti: "(ordinalCompare x y < 0) = (0 < ordinalCompare y x)"
  by (induction x y rule: ordinalCompare.induct) auto

lemma ordinalCompare_trans:
  "ordinalCompare x y \<le> 0 \<Longrightarrow> ordinalCompare y z \<le> 0 \<Longrightarrow> ordinalCompare x z \<le> 0"
proof (induction x arbitrary: y z)
  case Nil
  then show ?case by (cases z) simp_all
next
  case (Cons a x)
  then show ?case
    by (cases y; cases z) (auto split: if_splits)
qed

lemma collation_ordinalCompare: "collation ordinalCompare"
  unfolding collation_def
  using ordinalCompare_refl ordinalCompare_anti ordinalCompare_trans by blast

lemma digitsApart_ordinalCompare: "digitsApart ordinalCompare"
  unfolding digitsApart_def
proof (intro allI impI)
  fix n
  assume n: "list_all (\<lambda>c. \<not> isDigitChar c) n"
  have "(ordinalCompare n d < 0 \<and> ordinalCompare n e < 0)
      \<or> (0 < ordinalCompare n d \<and> 0 < ordinalCompare n e)"
    if de: "isDigits d \<and> isDigits e" for d e
  proof -
    from de obtain d0 ds e0 es where d: "d = d0 # ds" "isDigitChar d0"
      and e: "e = e0 # es" "isDigitChar e0"
      by (cases d; cases e) (auto simp: isDigits_def)
    show ?thesis
    proof (cases n)
      case Nil
      with d e show ?thesis by simp
    next
      case (Cons c cs)
      with n have "\<not> isDigitChar c" by simp
      with d e Cons show ?thesis by (auto simp: isDigitChar_def)
    qed
  qed
  then show "apartRun ordinalCompare n" unfolding apartRun_def by blast
qed

lemma rankCompare_refl: "rankCompare rank x x = 0"
  by (induction x) simp_all

lemma rankCompare_anti: "(rankCompare rank x y < 0) = (0 < rankCompare rank y x)"
  by (induction rank x y rule: rankCompare.induct) auto

lemma rankCompare_trans:
  "rankCompare rank x y \<le> 0 \<Longrightarrow> rankCompare rank y z \<le> 0 \<Longrightarrow> rankCompare rank x z \<le> 0"
proof (induction x arbitrary: y z)
  case Nil
  then show ?case by (cases z) simp_all
next
  case (Cons a x)
  then show ?case
    by (cases y; cases z) (auto split: if_splits)
qed

lemma collation_rankCompare: "collation (rankCompare rank)"
  unfolding collation_def
  using rankCompare_refl rankCompare_anti rankCompare_trans by blast

lemma collation_unicodeCompare: "collation unicodeCompare"
  unfolding collation_def unicodeCompare_def
  using rankCompare_refl rankCompare_anti rankCompare_trans by blast

section \<open>The sort arranges a permutation in order\<close>

lemma mset_insertSorted: "mset (insertSorted cmp x xs) = add_mset x (mset xs)"
  by (induction xs) simp_all

lemma mset_arraySort: "mset (arraySort cmp xs) = mset xs"
  by (induction xs) (simp_all add: arraySort_def mset_insertSorted)

lemma set_insertSorted: "set (insertSorted cmp x xs) = insert x (set xs)"
  using mset_insertSorted [of cmp x xs, THEN arg_cong, of set_mset] by simp

lemma sorted_insertSorted:
  assumes c: "consistentOn cmp s"
  shows "x \<in> s \<Longrightarrow> set xs \<subseteq> s \<Longrightarrow> sorted_wrt (\<lambda>a b. \<not> positive (cmp a b)) xs \<Longrightarrow>
    sorted_wrt (\<lambda>a b. \<not> positive (cmp a b)) (insertSorted cmp x xs)"
proof (induction xs)
  case Nil
  show ?case by simp
next
  case (Cons y ys)
  have total: "\<And>a b. a \<in> s \<Longrightarrow> b \<in> s \<Longrightarrow> positive (cmp a b) \<Longrightarrow> \<not> positive (cmp b a)"
    and trans: "\<And>a b c. a \<in> s \<Longrightarrow> b \<in> s \<Longrightarrow> c \<in> s \<Longrightarrow>
      \<not> positive (cmp a b) \<Longrightarrow> \<not> positive (cmp b c) \<Longrightarrow> \<not> positive (cmp a c)"
    using c unfolding consistentOn_def by blast+
  from Cons.prems have mem: "x \<in> s" "y \<in> s" "set ys \<subseteq> s" by simp_all
  show ?case
  proof (cases "positive (cmp x y)")
    case False
    have "\<not> positive (cmp x z)" if "z \<in> set ys" for z
    proof -
      from that Cons.prems(3) have "\<not> positive (cmp y z)" by simp
      with False show ?thesis using trans [of x y z] mem that by blast
    qed
    with False Cons.prems(3) show ?thesis by simp
  next
    case True
    with total [of x y] mem have "\<not> positive (cmp y x)" by simp
    moreover from Cons.prems(3) have "sorted_wrt (\<lambda>a b. \<not> positive (cmp a b)) ys" by simp
    with Cons.IH mem have "sorted_wrt (\<lambda>a b. \<not> positive (cmp a b)) (insertSorted cmp x ys)"
      by simp
    ultimately show ?thesis using True Cons.prems(3) by (simp add: set_insertSorted)
  qed
qed

lemma sorted_arraySort:
  assumes c: "consistentOn cmp s"
  shows "set xs \<subseteq> s \<Longrightarrow> sorted_wrt (\<lambda>a b. \<not> positive (cmp a b)) (arraySort cmp xs)"
proof (induction xs)
  case Nil
  show ?case by (simp add: arraySort_def)
next
  case (Cons x xs)
  then have "sorted_wrt (\<lambda>a b. \<not> positive (cmp a b)) (arraySort cmp xs)" by simp
  moreover have "set (arraySort cmp xs) = set xs"
    using mset_arraySort [of cmp xs, THEN arg_cong, of set_mset] by simp
  ultimately have "sorted_wrt (\<lambda>a b. \<not> positive (cmp a b))
      (insertSorted cmp x (arraySort cmp xs))"
    using Cons.prems by (intro sorted_insertSorted [OF c]) simp_all
  then show ?case by (simp add: arraySort_def)
qed

text \<open>Three elements that the comparator orders in a cycle have no arrangement in
  order.\<close>

lemma cycle_not_sorted:
  assumes cyc: "positive (cmp b a)" "positive (cmp c b)" "positive (cmp a c)"
    and ne: "a \<noteq> b" "b \<noteq> c" "a \<noteq> c"
    and mem: "a \<in> set xs" "b \<in> set xs" "c \<in> set xs"
  shows "\<not> sorted_wrt (\<lambda>x y. \<not> positive (cmp x y)) xs"
proof
  assume s: "sorted_wrt (\<lambda>x y. \<not> positive (cmp x y)) xs"
  from mem obtain i j k where ijk: "i < length xs" "xs ! i = a" "j < length xs" "xs ! j = b"
    "k < length xs" "xs ! k = c"
    by (auto simp: in_set_conv_nth)
  have before: "\<not> positive (cmp (xs ! m) (xs ! n))" if "m < n" "n < length xs" for m n
    using s that by (simp add: sorted_wrt_iff_nth_less)
  have "\<not> j < i" using before [of j i] ijk cyc(1) by auto
  moreover have "\<not> k < j" using before [of k j] ijk cyc(2) by auto
  moreover have "\<not> i < k" using before [of i k] ijk cyc(3) by auto
  moreover from ne ijk have "i \<noteq> j" "j \<noteq> k" "i \<noteq> k" by auto
  ultimately show False by linarith
qed

section \<open>Ties and common prefixes of the comparator\<close>




section \<open>Runs of digits as numbers\<close>

lemma digitsValue_bound_aux:
  "list_all isDigitChar s \<Longrightarrow>
   foldl (\<lambda>n c. 10 * n + (c - 48)) n s < (n + 1) * 10 ^ length s"
proof (induction s arbitrary: n)
  case Nil
  show ?case by simp
next
  case (Cons c s)
  from Cons.prems have c: "c - 48 \<le> 9" by (auto simp: isDigitChar_def)
  from Cons have "foldl (\<lambda>n c. 10 * n + (c - 48)) (10 * n + (c - 48)) s
      < (10 * n + (c - 48) + 1) * 10 ^ length s"
    by simp
  also from c have "\<dots> \<le> (10 * n + 10) * 10 ^ length s"
    by (intro mult_le_mono1) simp
  also have "\<dots> = (n + 1) * 10 ^ length (c # s)" by (simp add: algebra_simps)
  finally show ?case by simp
qed

lemma digitsValue_bound: "isDigits s \<Longrightarrow> digitsValue s < 10 ^ length s"
  using digitsValue_bound_aux [of s 0] by (simp add: digitsValue_def isDigits_def)

lemma finiteRun_short:
  assumes "length p \<le> 308"
  shows "finiteRun p"
proof (cases "isDigits p")
  case False
  then show ?thesis by (simp add: finiteRun_def)
next
  case True
  then have "digitsValue p < 10 ^ length p" by (rule digitsValue_bound)
  also from assms have "(10::nat) ^ length p \<le> 10 ^ 308" by (intro power_increasing) simp_all
  finally have "toNumber (digitsValue p) \<noteq> PosInfinity" by (rule toNumber_finite)
  then show ?thesis by (simp add: finiteRun_def parseInt_def)
qed



lemma matchRuns_digits: "isDigits s \<Longrightarrow> matchRuns s = [s]"
proof (cases s)
  case Nil
  assume "isDigits s"
  with Nil show ?thesis by (simp add: isDigits_def)
next
  case (Cons c cs)
  assume "isDigits s"
  with Cons have c: "isDigitChar c" and cs: "\<forall>x \<in> set cs. isDigitChar x"
    by (simp_all add: isDigits_def list_all_iff)
  from cs have tw: "takeWhile isDigitChar cs = cs" and dw: "dropWhile isDigitChar cs = []"
    by simp_all
  have "matchRuns s = matchRuns (c # cs)" by (simp only: Cons)
  also have "\<dots> = (c # takeWhile isDigitChar cs) # matchRuns (dropWhile isDigitChar cs)"
    using c by simp
  also have "\<dots> = (c # cs) # matchRuns []" by (simp only: tw dw)
  also have "\<dots> = [s]" by (simp add: Cons)
  finally show ?thesis .
qed

lemma digitsValue_nines_aux:
  "foldl (\<lambda>n c. 10 * n + (c - 48)) (n::nat) (replicate k 57) + 1 = (n + 1) * 10 ^ k"
proof (induction k arbitrary: n)
  case 0
  show ?case by simp
next
  case (Suc k)
  have "foldl (\<lambda>n c. 10 * n + (c - 48)) n (replicate (Suc k) (57::nat)) + 1
      = foldl (\<lambda>n c. 10 * n + (c - 48)) (10 * n + 9) (replicate k 57) + 1"
    by simp
  also have "\<dots> = (10 * n + 9 + 1) * 10 ^ k" by (rule Suc)
  also have "\<dots> = (n + 1) * 10 ^ Suc k" by (simp add: algebra_simps)
  finally show ?case .
qed

lemma parseInt_nines: "parseInt (replicate 309 57) = PosInfinity"
proof -
  have "digitsValue (replicate 309 57) + 1 = 10 ^ 309"
    using digitsValue_nines_aux [of 0 309] by (simp only: digitsValue_def) simp
  moreover have "(2::nat) ^ 1024 + 1 \<le> 10 ^ 309" by simp
  ultimately have "2 ^ 1024 \<le> digitsValue (replicate 309 57)" by linarith
  then show ?thesis unfolding parseInt_def by (rule toNumber_overflow)
qed

lemma naturalSort_overflow:
  "naturalSort lc (replicate 309 57) (replicate 309 57) = NaN"
proof -
  have d: "isDigits (replicate 309 57)"
    by (simp add: isDigits_def list_all_iff isDigitChar_def)
  then have "matchRuns (replicate 309 57) = [replicate 309 57]" by (rule matchRuns_digits)
  with d parseInt_nines show ?thesis
    by (simp add: naturalSort_def comparePart_def)
qed

section \<open>The extension test\<close>

lemma lastIndexFrom_absent: "c \<notin> set s \<Longrightarrow> lastIndexFrom s c i found = found"
  by (induction s arbitrary: i found) auto

lemma lastIndexFrom_last:
  "c \<notin> set post \<Longrightarrow> lastIndexFrom (pre @ c # post) c i found = int (i + length pre)"
  by (induction pre arbitrary: i found) (simp_all add: lastIndexFrom_absent)

lemma lowerLetter_dot: "(lowerLetter c = 46) = (c = 46)"
  by (auto simp: lowerLetter_def)

lemma dot_lowerLetter: "(46 = lowerLetter c) = (c = 46)"
  by (auto simp: lowerLetter_def)

lemma toLowerCase_append: "toLowerCase (xs @ ys) = toLowerCase xs @ toLowerCase ys"
  by (simp add: toLowerCase_def)

lemma toLowerCase_dot: "toLowerCase (46 # s) = 46 # toLowerCase s"
  by (simp add: toLowerCase_def lowerUnit_def lowerLetter_def)

lemma toLowerCase_plain: "304 \<notin> set s \<Longrightarrow> toLowerCase s = map lowerLetter s"
  by (induction s) (simp_all add: toLowerCase_def lowerUnit_def)

lemma dot_in_toLowerCase: "(46 \<in> set (toLowerCase s)) = (46 \<in> set s)"
  by (induction s) (auto simp: toLowerCase_def lowerUnit_def lowerLetter_def)

lemma length_toLowerCase: "length s \<le> length (toLowerCase s)"
  by (induction s) (simp_all add: toLowerCase_def lowerUnit_def)

lemma length_toLowerCase_longer: "304 \<in> set s \<Longrightarrow> length s < length (toLowerCase s)"
proof (induction s)
  case Nil
  then show ?case by simp
next
  case (Cons c s)
  show ?case
  proof (cases "c = 304")
    case True
    with length_toLowerCase [of s] show ?thesis by (simp add: toLowerCase_def lowerUnit_def)
  next
    case False
    with Cons show ?thesis by (simp add: toLowerCase_def lowerUnit_def)
  qed
qed

lemma combining_in_toLowerCase: "304 \<in> set s \<Longrightarrow> 775 \<in> set (toLowerCase s)"
  by (induction s) (auto simp: toLowerCase_def lowerUnit_def)

lemma last_split_unique:
  assumes "c \<notin> set q" "c \<notin> set e" "p @ c # q = zs @ c # e"
  shows "q = e"
proof -
  from assms(3) have "rev (p @ c # q) = rev (zs @ c # e)" by (simp only:)
  then have "rev q @ c # rev p = rev e @ c # rev zs" by simp
  then have "takeWhile (\<lambda>x. x \<noteq> c) (rev q @ c # rev p) = takeWhile (\<lambda>x. x \<noteq> c) (rev e @ c # rev zs)"
    by simp
  moreover have "takeWhile (\<lambda>x. x \<noteq> c) (rev q @ c # rev p) = rev q"
    using assms(1) by (auto simp: takeWhile_tail)
  moreover have "takeWhile (\<lambda>x. x \<noteq> c) (rev e @ c # rev zs) = rev e"
    using assms(2) by (auto simp: takeWhile_tail)
  ultimately show ?thesis by simp
qed

lemma suffix_after_last:
  assumes "c \<notin> set q" "c \<notin> set e"
  shows "suffix (c # e) (p @ c # q) = (e = q)"
proof
  assume "suffix (c # e) (p @ c # q)"
  then obtain zs where "p @ c # q = zs @ c # e" unfolding suffix_def by blast
  with assms show "e = q" using last_split_unique by metis
next
  assume "e = q"
  then show "suffix (c # e) (p @ c # q)" by (simp add: suffix_def)
qed

lemma extension_shape:
  assumes "e \<in> set imageExtensions"
  shows "\<exists>e'. e = 46 # e' \<and> 46 \<notin> set e' \<and> 775 \<notin> set e'"
    and "\<forall>d \<in> set e. \<not> (65 \<le> d \<and> d \<le> 90)"
  using assms by (auto simp: imageExtensions_def str_def)

lemma isImageFile_plain:
  assumes plain: "304 \<notin> set fileName"
  shows "isImageFile fileName
       = (\<exists>e \<in> set imageExtensions. suffix e (map lowerLetter fileName))"
proof (cases "46 \<in> set fileName")
  case False
  then have nodot: "46 \<notin> set (toLowerCase fileName)"
    by (simp add: dot_in_toLowerCase)
  from False have "lastIndexOf fileName 46 = -1"
    by (simp add: lastIndexOf_def lastIndexFrom_absent)
  then have sub: "substring (toLowerCase fileName) (lastIndexOf fileName 46)
      = toLowerCase fileName"
    by (simp add: substring_def)
  have "\<not> isImageFile fileName"
  proof
    assume "isImageFile fileName"
    with sub have "toLowerCase fileName \<in> set imageExtensions" by (simp add: isImageFile_def)
    from extension_shape(1) [OF this] obtain e' where "toLowerCase fileName = 46 # e'" by blast
    then have "46 \<in> set (toLowerCase fileName)" by simp
    with nodot show False by blast
  qed
  moreover have "\<not> (\<exists>e \<in> set imageExtensions. suffix e (map lowerLetter fileName))"
  proof
    assume "\<exists>e \<in> set imageExtensions. suffix e (map lowerLetter fileName)"
    then obtain e where e: "e \<in> set imageExtensions" "suffix e (map lowerLetter fileName)"
      by blast
    from e(1) extension_shape(1) have "46 \<in> set e" by fastforce
    moreover from e(2) have "set e \<subseteq> set (map lowerLetter fileName)" by (rule set_mono_suffix)
    ultimately have "46 \<in> set (toLowerCase fileName)"
      using plain by (auto simp: toLowerCase_plain)
    with nodot show False by blast
  qed
  ultimately show ?thesis by simp
next
  case True
  then obtain pre post where split: "fileName = pre @ 46 # post" "46 \<notin> set post"
    using split_list_last [of 46 fileName] by blast
  let ?L = "map lowerLetter"
  have nodot: "46 \<notin> set (?L post)"
  proof
    assume "46 \<in> set (?L post)"
    then obtain x where "x \<in> set post" "lowerLetter x = 46" by auto
    then have "46 \<in> set post" by (simp add: lowerLetter_dot)
    with split(2) show False by blast
  qed
  from split have "lastIndexOf fileName 46 = int (length pre)"
    by (simp add: lastIndexOf_def lastIndexFrom_last)
  with split plain have ext: "substring (toLowerCase fileName) (lastIndexOf fileName 46)
      = 46 # ?L post"
    by (simp add: substring_def toLowerCase_plain lowerLetter_dot)
  have lower: "?L fileName = ?L pre @ 46 # ?L post"
    using split by (simp add: lowerLetter_dot)
  have suf: "suffix (46 # e) (?L fileName) = (e = ?L post)" if "46 \<notin> set e" for e
    unfolding lower using suffix_after_last [OF nodot that] .
  have "(\<exists>e \<in> set imageExtensions. suffix e (?L fileName))
      = (46 # ?L post \<in> set imageExtensions)"
  proof
    assume "\<exists>e \<in> set imageExtensions. suffix e (?L fileName)"
    then obtain e where e: "e \<in> set imageExtensions" "suffix e (?L fileName)" by blast
    from extension_shape(1) [OF e(1)] obtain e' where e': "e = 46 # e'" "46 \<notin> set e'"
      by blast
    with e(2) suf [of e'] have "e' = ?L post" by simp
    with e' e(1) show "46 # ?L post \<in> set imageExtensions" by simp
  next
    assume m: "46 # ?L post \<in> set imageExtensions"
    from suf [OF nodot] have "suffix (46 # ?L post) (?L fileName)" by simp
    with m show "\<exists>e \<in> set imageExtensions. suffix e (?L fileName)" by blast
  qed
  with ext show ?thesis by (simp add: isImageFile_def)
qed

lemma suffix_iff_drop:
  "suffix e xs = (length e \<le> length xs \<and> drop (length xs - length e) xs = e)"
proof
  assume "suffix e xs"
  then obtain zs where "xs = zs @ e" unfolding suffix_def by blast
  then show "length e \<le> length xs \<and> drop (length xs - length e) xs = e" by simp
next
  assume "length e \<le> length xs \<and> drop (length xs - length e) xs = e"
  then have "suffix (drop (length xs - length e) xs) xs \<Longrightarrow> suffix e xs" by simp
  then show "suffix e xs" using suffix_drop by blast
qed

lemma lowerLetter_sameLetter:
  "\<not> (65 \<le> d \<and> d \<le> 90) \<Longrightarrow> (lowerLetter c = d) = sameLetter c d"
  by (auto simp: lowerLetter_def sameLetter_def)

lemma map_lowerLetter_eq:
  "\<forall>d \<in> set e. \<not> (65 \<le> d \<and> d \<le> 90) \<Longrightarrow>
   (map lowerLetter ys = e) = list_all2 sameLetter ys e"
proof (induction ys arbitrary: e)
  case Nil
  show ?case by auto
next
  case (Cons y ys)
  show ?case
  proof (cases e)
    case Nil
    then show ?thesis by simp
  next
    case (Cons d ds)
    with Cons.prems Cons.IH [of ds] lowerLetter_sameLetter [of d y] show ?thesis by auto
  qed
qed

lemma isImageFile_plain_iff:
  assumes "304 \<notin> set fileName"
  shows "isImageFile fileName = hasImageExtension fileName"
proof -
  have "suffix e (map lowerLetter fileName)
      = (length e \<le> length fileName
          \<and> list_all2 sameLetter (drop (length fileName - length e) fileName) e)"
    if "e \<in> set imageExtensions" for e
    using map_lowerLetter_eq [OF extension_shape(2) [OF that],
        of "drop (length fileName - length e) fileName"]
    by (simp add: suffix_iff_drop drop_map)
  then show ?thesis
    unfolding isImageFile_plain [OF assms] hasImageExtension_def by blast
qed

lemma isImageFile_undotted:
  assumes img: "isImageFile fileName"
  shows "304 \<notin> set fileName"
proof
  assume dotted: "304 \<in> set fileName"
  from img obtain e where e: "e \<in> set imageExtensions"
    and ext: "substring (toLowerCase fileName) (lastIndexOf fileName 46) = e"
    by (auto simp: isImageFile_def Let_def)
  from extension_shape(1) [OF e] obtain e' where shape: "e = 46 # e'" "46 \<notin> set e'"
    "775 \<notin> set e'"
    by blast
  show False
  proof (cases "46 \<in> set fileName")
    case False
    then have "lastIndexOf fileName 46 = -1"
      by (simp add: lastIndexOf_def lastIndexFrom_absent)
    with ext have "toLowerCase fileName = e" by (simp add: substring_def)
    with shape(1) have "46 \<in> set (toLowerCase fileName)" by simp
    with False show False by (simp add: dot_in_toLowerCase)
  next
    case True
    then obtain pre post where split: "fileName = pre @ 46 # post" "46 \<notin> set post"
      using split_list_last [of 46 fileName] by blast
    then have idx: "lastIndexOf fileName 46 = int (length pre)"
      by (simp add: lastIndexOf_def lastIndexFrom_last)
    have lower: "toLowerCase fileName = toLowerCase pre @ 46 # toLowerCase post"
      unfolding split(1) by (simp add: toLowerCase_append toLowerCase_dot)
    define d where "d = drop (length pre) (toLowerCase pre)"
    have "substring (toLowerCase fileName) (int (length pre))
        = drop (length pre) (toLowerCase fileName)"
      using length_toLowerCase [of pre] unfolding lower by (simp add: substring_def)
    also have "\<dots> = d @ 46 # toLowerCase post"
      using length_toLowerCase [of pre] unfolding lower d_def by simp
    finally have e_eq: "e = d @ 46 # toLowerCase post" using ext idx by simp
    show False
    proof (cases "304 \<in> set pre")
      case True
      then have "d \<noteq> []" unfolding d_def using length_toLowerCase_longer [of pre] by simp
      then obtain x d' where "d = x # d'" by (cases d) auto
      with e_eq shape(1) have "e' = d' @ 46 # toLowerCase post" by simp
      with shape(2) show False by simp
    next
      case False
      with dotted split(1) have "304 \<in> set post" by auto
      then have "775 \<in> set (toLowerCase post)" by (rule combining_in_toLowerCase)
      moreover from False have "d = []"
        unfolding d_def by (simp add: toLowerCase_plain)
      with e_eq shape(1) have "e' = toLowerCase post" by simp
      ultimately show False using shape(3) by simp
    qed
  qed
qed

lemma isImageFile_iff:
  "isImageFile fileName = (hasImageExtension fileName \<and> 304 \<notin> set fileName)"
  using isImageFile_plain_iff [of fileName] isImageFile_undotted [of fileName] by blast

section \<open>The natural comparator: order, ties and runs\<close>

lemma list_all_isPart_matchRuns: "list_all isPart (matchRuns s)"
  using matchRuns_parts [of s] by (simp add: list_all_iff)

lemma length_matchRuns_part:
  assumes "p \<in> set (matchRuns a)"
  shows "length p \<le> length a"
proof -
  from assms have "length p \<in> set (map length (matchRuns a))" by simp
  then have "length p \<le> sum_list (map length (matchRuns a))"
    by (rule member_le_sum_list) simp
  also have "\<dots> = length (concat (matchRuns a))" by (simp add: length_concat)
  finally show ?thesis by (simp add: concat_matchRuns)
qed

lemma finiteRun_matchRuns:
  assumes "length a \<le> 308"
  shows "list_all finiteRun (matchRuns a)"
proof -
  have "finiteRun p" if "p \<in> set (matchRuns a)" for p
  proof -
    from that have "length p \<le> length a" by (rule length_matchRuns_part)
    with assms have "length p \<le> 308" by simp
    then show ?thesis by (rule finiteRun_short)
  qed
  then show ?thesis by (simp add: list_all_iff)
qed

lemma naturalSort_anti:
  "collation lc \<Longrightarrow> negative (naturalSort lc a b) = positive (naturalSort lc b a)"
  unfolding naturalSort_def using compareParts_mirror by blast

lemma naturalSort_total:
  assumes "collation lc" "positive (naturalSort lc a b)"
  shows "\<not> positive (naturalSort lc b a)"
  using naturalSort_anti [OF assms(1), of b a] assms(2) by (simp add: negative_not_positive)

lemma naturalSort_trans:
  assumes "collation lc" "apartName lc a" "apartName lc b" "apartName lc c"
    and "\<not> positive (naturalSort lc a b)" "\<not> positive (naturalSort lc b c)"
  shows "\<not> positive (naturalSort lc a c)"
proof -
  from assms(2-4) have missing: "apartRun lc []"
    and runs: "list_all (apartRun lc) (matchRuns a)" "list_all (apartRun lc) (matchRuns b)"
      "list_all (apartRun lc) (matchRuns c)"
    by (simp_all add: apartName_def)
  from assms(5,6) show ?thesis
    unfolding naturalSort_def by (rule compareParts_trans [OF assms(1) missing runs])
qed

lemma apartName_digitsApart:
  assumes "digitsApart lc"
  shows "apartName lc a"
proof -
  have apart: "apartRun lc p" if "isPart p" for p
  proof (cases "isDigits p")
    case True
    then show ?thesis by (simp add: apartRun_def)
  next
    case False
    with that have "list_all (\<lambda>c. \<not> isDigitChar c) p" by (simp add: isPart_def)
    with assms show ?thesis unfolding digitsApart_def by blast
  qed
  have "isPart []" by (simp add: isPart_def)
  then have "apartRun lc []" by (rule apart)
  moreover have "list_all (apartRun lc) (matchRuns a)"
    using list_all_isPart_matchRuns [of a] apart by (simp add: list_all_iff)
  ultimately show ?thesis by (simp add: apartName_def)
qed

lemma consistentOn_naturalSort:
  assumes "collation lc" "\<And>n. n \<in> s \<Longrightarrow> apartName lc n"
  shows "consistentOn (naturalSort lc) s"
  unfolding consistentOn_def
proof (intro conjI ballI impI)
  fix a b
  assume "positive (naturalSort lc a b)"
  then show "\<not> positive (naturalSort lc b a)" by (rule naturalSort_total [OF assms(1)])
next
  fix a b c
  assume mem: "a \<in> s" "b \<in> s" "c \<in> s"
    and le: "\<not> positive (naturalSort lc a b) \<and> \<not> positive (naturalSort lc b c)"
  from le have "\<not> positive (naturalSort lc a b)" "\<not> positive (naturalSort lc b c)" by simp_all
  then show "\<not> positive (naturalSort lc a c)"
    by (rule naturalSort_trans [OF assms(1) assms(2) [OF mem(1)] assms(2) [OF mem(2)]
          assms(2) [OF mem(3)]])
qed

lemma naturalSort_zero_sym:
  assumes "collation lc"
  shows "(naturalSort lc a b = Finite 0) = (naturalSort lc b a = Finite 0)"
proof -
  have "naturalSort lc y x = Finite 0" if z: "naturalSort lc x y = Finite 0" for x y
  proof -
    have "\<not> positive (naturalSort lc y x)"
      using naturalSort_anti [OF assms, of x y] unfolding z by simp
    moreover have "\<not> negative (naturalSort lc y x)"
      using naturalSort_anti [OF assms, of y x] unfolding z by simp
    moreover have "naturalSort lc y x \<noteq> NaN"
      using compareParts_mirror [OF assms, of "matchRuns x" "matchRuns y"] z
      unfolding naturalSort_def by simp
    ultimately show ?thesis by (cases "naturalSort lc y x") auto
  qed
  then show ?thesis by blast
qed

lemma naturalSort_leading_zero_tie:
  "lc (str ''.jpg'') (str ''.jpg'') = 0 \<Longrightarrow>
   naturalSort lc (str ''01.jpg'') (str ''1.jpg'') = Finite 0"
  by (simp add: naturalSort_def str_def isDigitChar_def comparePart_def isDigits_def
      parseInt_def digitsValue_def toNumber_def roundInteger_def)

lemma naturalSort_cycle:
  "negative (naturalSort unicodeCompare (str ''9.jpg'') (str ''10.jpg''))
   \<and> negative (naturalSort unicodeCompare (str ''10.jpg'') (178 # str ''.jpg''))
   \<and> negative (naturalSort unicodeCompare (178 # str ''.jpg'') (str ''9.jpg''))"
  by (simp add: naturalSort_def str_def isDigitChar_def comparePart_def isDigits_def
      parseInt_def digitsValue_def toNumber_def roundInteger_def unicodeCompare_def
      superscriptRank_def)

text \<open>
  C2 as stated fails, in three ways. \<open>01.jpg\<close> and \<open>1.jpg\<close> are different names and
  tie, since the digit runs \<open>01\<close> and \<open>1\<close> are compared as the numbers they denote.
  The comparator is not transitive for every collation of a host: under
  \<open>unicodeCompare\<close>, the comparator of a total preorder, \<open>9.jpg\<close> does not sort after
  \<open>10.jpg\<close>, nor \<open>10.jpg\<close> after the superscript two followed by \<open>.jpg\<close>, but \<open>9.jpg\<close>
  sorts after the latter: the first two names are compared as the numbers 9 and 10,
  and each of them with the third as strings. And a name that is a run of 309 digits
  \<open>9\<close> does not tie with itself: both sides parse to \<open>Infinity\<close>, and the result is
  \<open>NaN\<close>.
\<close>

theorem naturalSort_tie_counterexample:
  "naturalSort ordinalCompare (str ''01.jpg'') (str ''1.jpg'') = Finite 0
   \<and> str ''01.jpg'' \<noteq> str ''1.jpg''
   \<and> \<not> positive (naturalSort unicodeCompare (str ''9.jpg'') (str ''10.jpg''))
   \<and> \<not> positive (naturalSort unicodeCompare (str ''10.jpg'') (178 # str ''.jpg''))
   \<and> positive (naturalSort unicodeCompare (str ''9.jpg'') (178 # str ''.jpg''))
   \<and> naturalSort ordinalCompare (replicate 309 57) (replicate 309 57) = NaN"
proof -
  have "naturalSort ordinalCompare (str ''01.jpg'') (str ''1.jpg'') = Finite 0"
    by (simp add: naturalSort_def str_def isDigitChar_def comparePart_def isDigits_def
        parseInt_def digitsValue_def toNumber_def roundInteger_def)
  moreover have "str ''01.jpg'' \<noteq> str ''1.jpg''" by (simp add: str_def)
  moreover have "\<not> positive (naturalSort unicodeCompare (str ''9.jpg'') (str ''10.jpg''))"
    by (simp add: naturalSort_def str_def isDigitChar_def comparePart_def isDigits_def
        parseInt_def digitsValue_def toNumber_def roundInteger_def)
  moreover have "\<not> positive (naturalSort unicodeCompare (str ''10.jpg'') (178 # str ''.jpg''))"
    by (simp add: naturalSort_def str_def isDigitChar_def comparePart_def isDigits_def
        unicodeCompare_def superscriptRank_def)
  moreover have "positive (naturalSort unicodeCompare (str ''9.jpg'') (178 # str ''.jpg''))"
    by (simp add: naturalSort_def str_def isDigitChar_def comparePart_def isDigits_def
        unicodeCompare_def superscriptRank_def)
  moreover note naturalSort_overflow [of ordinalCompare]
  ultimately show ?thesis by blast
qed

text \<open>
  C2, as amended. Let \<open>lc\<close> be the comparator of a total preorder, as ECMAScript asks
  of \<open>localeCompare\<close>. Then \<open>naturalSort lc\<close> compares every two names, the empty one
  included: the result for a name and itself is 0, or \<open>NaN\<close>, which the sort reads as
  0, and it is 0 when no digit run of the name parses to \<open>Infinity\<close>, as in every name
  of at most 308 code units; swapping the arguments swaps the sign of the result and
  keeps a 0 and a \<open>NaN\<close>. The comparator is transitive on the names whose runs keep
  apart from the digits under \<open>lc\<close>: each run of non-digits, and the empty string, sorts
  strictly before all runs of digits or strictly after all of them. These are all
  names when every string without a digit does so. Names that tie need not be
  identical: \<open>01.jpg\<close> and \<open>1.jpg\<close> tie.
\<close>

theorem naturalSort_total_preorder:
  assumes "collation lc"
  shows "(naturalSort lc a a = Finite 0 \<or> naturalSort lc a a = NaN)
     \<and> (list_all finiteRun (matchRuns a) \<longrightarrow> naturalSort lc a a = Finite 0)
     \<and> (length a \<le> 308 \<longrightarrow> naturalSort lc a a = Finite 0)
     \<and> negative (naturalSort lc a b) = positive (naturalSort lc b a)
     \<and> (naturalSort lc a b = Finite 0) = (naturalSort lc b a = Finite 0)
     \<and> (naturalSort lc a b = NaN) = (naturalSort lc b a = NaN)
     \<and> (apartName lc a \<and> apartName lc b \<and> apartName lc c
          \<and> \<not> positive (naturalSort lc a b) \<and> \<not> positive (naturalSort lc b c)
          \<longrightarrow> \<not> positive (naturalSort lc a c))
     \<and> (digitsApart lc \<longrightarrow> apartName lc a)
     \<and> naturalSort lc (str ''01.jpg'') (str ''1.jpg'') = Finite 0"
proof -
  have refl: "\<And>x. lc x x = 0" using assms unfolding collation_def by blast
  have "naturalSort lc a a = Finite 0 \<or> naturalSort lc a a = NaN"
    unfolding naturalSort_def using assms by (rule compareParts_self)
  moreover have fin: "list_all finiteRun (matchRuns a) \<longrightarrow> naturalSort lc a a = Finite 0"
    unfolding naturalSort_def using compareParts_refl [of lc "matchRuns a"] refl by blast
  moreover have "length a \<le> 308 \<longrightarrow> naturalSort lc a a = Finite 0"
    using fin finiteRun_matchRuns [of a] by blast
  moreover note naturalSort_anti [OF assms, of a b]
  moreover note naturalSort_zero_sym [OF assms, of a b]
  moreover have "(naturalSort lc a b = NaN) = (naturalSort lc b a = NaN)"
    unfolding naturalSort_def using compareParts_mirror [OF assms] by blast
  moreover have "apartName lc a \<and> apartName lc b \<and> apartName lc c
      \<and> \<not> positive (naturalSort lc a b) \<and> \<not> positive (naturalSort lc b c)
      \<longrightarrow> \<not> positive (naturalSort lc a c)"
    using naturalSort_trans [OF assms, of a b c] by blast
  moreover have "digitsApart lc \<longrightarrow> apartName lc a"
    using apartName_digitsApart [of lc a] by blast
  moreover have "naturalSort lc (str ''01.jpg'') (str ''1.jpg'') = Finite 0"
    using refl by (rule naturalSort_leading_zero_tie)
  ultimately show ?thesis by blast
qed

theorem naturalSort_total_preorder_witness:
  "collation ordinalCompare \<and> digitsApart ordinalCompare
   \<and> apartName ordinalCompare (str ''a9.png'') \<and> apartName ordinalCompare (str ''a10.png'')
   \<and> apartName ordinalCompare (str ''b1.png'')
   \<and> list_all finiteRun (matchRuns (str ''a9.png'')) \<and> length (str ''a9.png'') \<le> 308
   \<and> naturalSort ordinalCompare (str ''a9.png'') (str ''a9.png'') = Finite 0
   \<and> \<not> positive (naturalSort ordinalCompare (str ''a9.png'') (str ''a10.png''))
   \<and> \<not> positive (naturalSort ordinalCompare (str ''a10.png'') (str ''b1.png''))
   \<and> \<not> positive (naturalSort ordinalCompare (str ''a9.png'') (str ''b1.png''))
   \<and> positive (naturalSort ordinalCompare (str ''b1.png'') (str ''a9.png''))
   \<and> naturalSort ordinalCompare [] [] = Finite 0"
proof -
  have f: "list_all finiteRun (matchRuns (str ''a9.png''))" "length (str ''a9.png'') \<le> 308"
    by (simp_all add: str_def isDigitChar_def finiteRun_def isDigits_def parseInt_def
        digitsValue_def toNumber_def roundInteger_def)
  have ab: "\<not> positive (naturalSort ordinalCompare (str ''a9.png'') (str ''a10.png''))"
    by (simp add: naturalSort_def str_def isDigitChar_def comparePart_def isDigits_def
        parseInt_def digitsValue_def toNumber_def roundInteger_def)
  have bc: "\<not> positive (naturalSort ordinalCompare (str ''a10.png'') (str ''b1.png''))"
    by (simp add: naturalSort_def str_def isDigitChar_def comparePart_def isDigits_def)
  have neg: "negative (naturalSort ordinalCompare (str ''a9.png'') (str ''b1.png''))"
    by (simp add: naturalSort_def str_def isDigitChar_def comparePart_def isDigits_def)
  note t = naturalSort_total_preorder [OF collation_ordinalCompare]
  have "digitsApart ordinalCompare \<longrightarrow> apartName ordinalCompare (str ''a9.png'')"
    using t [of "str ''a9.png''" "[]" "[]"] by (elim conjE)
  moreover have "digitsApart ordinalCompare \<longrightarrow> apartName ordinalCompare (str ''a10.png'')"
    using t [of "str ''a10.png''" "[]" "[]"] by (elim conjE)
  moreover have "digitsApart ordinalCompare \<longrightarrow> apartName ordinalCompare (str ''b1.png'')"
    using t [of "str ''b1.png''" "[]" "[]"] by (elim conjE)
  ultimately have ap: "apartName ordinalCompare (str ''a9.png'')"
    "apartName ordinalCompare (str ''a10.png'')" "apartName ordinalCompare (str ''b1.png'')"
    using digitsApart_ordinalCompare by simp_all
  have "length (str ''a9.png'') \<le> 308 \<longrightarrow>
      naturalSort ordinalCompare (str ''a9.png'') (str ''a9.png'') = Finite 0"
    using t [of "str ''a9.png''" "[]" "[]"] by (elim conjE)
  with f(2) have self: "naturalSort ordinalCompare (str ''a9.png'') (str ''a9.png'') = Finite 0"
    by simp
  have "apartName ordinalCompare (str ''a9.png'') \<and> apartName ordinalCompare (str ''a10.png'')
      \<and> apartName ordinalCompare (str ''b1.png'')
      \<and> \<not> positive (naturalSort ordinalCompare (str ''a9.png'') (str ''a10.png''))
      \<and> \<not> positive (naturalSort ordinalCompare (str ''a10.png'') (str ''b1.png''))
      \<longrightarrow> \<not> positive (naturalSort ordinalCompare (str ''a9.png'') (str ''b1.png''))"
    using t [of "str ''a9.png''" "str ''a10.png''" "str ''b1.png''"] by (elim conjE)
  with ap ab bc
  have ac: "\<not> positive (naturalSort ordinalCompare (str ''a9.png'') (str ''b1.png''))"
    by simp
  have "negative (naturalSort ordinalCompare (str ''a9.png'') (str ''b1.png''))
      = positive (naturalSort ordinalCompare (str ''b1.png'') (str ''a9.png''))"
    using t [of "str ''a9.png''" "str ''b1.png''" "[]"] by (elim conjE)
  with neg have ca: "positive (naturalSort ordinalCompare (str ''b1.png'') (str ''a9.png''))"
    by simp
  have "length ([] :: jsString) \<le> 308 \<longrightarrow> naturalSort ordinalCompare [] [] = Finite 0"
    using t [of "[]" "[]" "[]"] by (elim conjE)
  then have empty: "naturalSort ordinalCompare [] [] = Finite 0" by simp
  from collation_ordinalCompare digitsApart_ordinalCompare ap f self ab bc ac ca empty
  show ?thesis by (intro conjI)
qed




section \<open>The extraction loop in closed form\<close>

lemma extractLoop_pages:
  "map pageCore (fst (extractLoop files comicId i names (pgs, br)))
   = map pageCore pgs @ List.map_filter (pageAt files comicId) (enumerate i names)"
proof (induction names arbitrary: i pgs br)
  case Nil
  show ?case by (simp add: List.map_filter_simps)
next
  case (Cons n names)
  show ?case
  proof (cases "asyncBlob files n")
    case (Inl e)
    with Cons [of "Suc i" pgs] show ?thesis
      by (simp add: List.map_filter_simps pageAt_def)
  next
    case (Inr b)
    with Cons [of "Suc i"] show ?thesis
      by (simp add: List.map_filter_simps pageAt_def pageCore_def createObjectURL_def)
  qed
qed

lemma extractLoop_length:
  "length (fst (extractLoop files comicId i names (pgs, br)))
   = length pgs + length (filter (materializes files) names)"
proof (induction names arbitrary: i pgs br)
  case Nil
  show ?case by simp
next
  case (Cons n names)
  show ?case
  proof (cases "asyncBlob files n")
    case (Inl e)
    with Cons [of "Suc i" pgs] show ?thesis by (simp add: materializes_def)
  next
    case (Inr b)
    with Cons [of "Suc i"] show ?thesis by (simp add: materializes_def createObjectURL_def)
  qed
qed

lemma extractLoop_console:
  "console (snd (extractLoop files comicId i names (pgs, br)))
   = console br @ map (\<lambda>n. str ''Failed to extract page '' @ n @ str '':'')
                   (filter (\<lambda>n. \<not> materializes files n) names)"
proof (induction names arbitrary: i pgs br)
  case Nil
  show ?case by simp
next
  case (Cons n names)
  show ?case
  proof (cases "asyncBlob files n")
    case (Inl e)
    with Cons [of "Suc i" pgs] show ?thesis by (simp add: materializes_def warn_def)
  next
    case (Inr b)
    with Cons [of "Suc i"] show ?thesis by (simp add: materializes_def createObjectURL_def)
  qed
qed

lemma map_filter_all:
  "(\<And>x. x \<in> set xs \<Longrightarrow> f x = Some (g x)) \<Longrightarrow> List.map_filter f xs = map g xs"
  by (induction xs) (simp_all add: List.map_filter_simps)

section \<open>Extraction: pages, indices and order\<close>

lemma extractPagesFromCBR_loaded:
  assumes "loadAsync arrayBuffer = Inr files"
  shows "extractPagesFromCBR lc loadAsync br arrayBuffer comicId
       = (Inr (fst (extractLoop files comicId 0 (imageFiles lc files) ([], br))),
          snd (extractLoop files comicId 0 (imageFiles lc files) ([], br)))"
  using assms by (simp add: extractPagesFromCBR_def split_beta)

text \<open>
  C5. For a buffer that loads as an archive, \<open>extractPagesFromCBR\<close> is fulfilled
  whichever entries fail to materialize. Its pages are those of the entries that
  materialize, in sorted order; each carries as index, and in its id, the position of
  its entry in the full sorted list of retained names, so a skipped entry leaves a gap
  in the indices. The number of pages is the number of entries that materialize, and
  one warning is logged for each entry that does not.
\<close>

theorem extraction_skips_failed_entries:
  "loadAsync arrayBuffer = Inr files \<Longrightarrow>
   \<exists>pgs br'. extractPagesFromCBR lc loadAsync br arrayBuffer comicId = (Inr pgs, br')
     \<and> map pageCore pgs
         = List.map_filter (pageAt files comicId) (enumerate 0 (imageFiles lc files))
     \<and> length pgs = length (filter (materializes files) (imageFiles lc files))
     \<and> console br' = console br @ map (\<lambda>n. str ''Failed to extract page '' @ n @ str '':'')
                         (filter (\<lambda>n. \<not> materializes files n) (imageFiles lc files))"
  using extractLoop_pages [of files comicId 0 "imageFiles lc files" "[]" br]
    extractLoop_length [of files comicId 0 "imageFiles lc files" "[]" br]
    extractLoop_console [of files comicId 0 "imageFiles lc files" "[]" br]
  by (simp add: extractPagesFromCBR_loaded)

lemma map_of_distinct_iff:
  "distinct (map fst files) \<Longrightarrow> (map_of files n = Some e) = ((n, e) \<in> set files)"
  by (auto dest: map_of_SomeD)

lemma set_imageFiles:
  assumes "distinct (map fst files)"
  shows "set (imageFiles lc files)
       = {n. \<exists>e. (n, e) \<in> set files \<and> \<not> dir e \<and> hasImageExtension n \<and> 304 \<notin> set n}"
proof -
  let ?keep = "\<lambda>fileName. case map_of files fileName of
      Some file \<Rightarrow> \<not> dir file \<and> isImageFile fileName | None \<Rightarrow> False"
  have "set (imageFiles lc files) = set (filter ?keep (map fst files))"
    using mset_arraySort [of "naturalSort lc" "filter ?keep (map fst files)", THEN arg_cong, of set_mset]
    by (simp only: imageFiles_def set_mset_mset)
  moreover have "(n \<in> set (filter ?keep (map fst files)))
      = (\<exists>e. (n, e) \<in> set files \<and> \<not> dir e \<and> hasImageExtension n \<and> 304 \<notin> set n)" for n
  proof
    assume "n \<in> set (filter ?keep (map fst files))"
    then have "?keep n" by simp
    then obtain e where "map_of files n = Some e" "\<not> dir e" "isImageFile n"
      by (cases "map_of files n") simp_all
    then show "\<exists>e. (n, e) \<in> set files \<and> \<not> dir e \<and> hasImageExtension n \<and> 304 \<notin> set n"
      using map_of_distinct_iff [OF assms, of n e] isImageFile_iff [of n] by blast
  next
    assume "\<exists>e. (n, e) \<in> set files \<and> \<not> dir e \<and> hasImageExtension n \<and> 304 \<notin> set n"
    then obtain e where e: "(n, e) \<in> set files" "\<not> dir e" "hasImageExtension n" "304 \<notin> set n"
      by blast
    then have "map_of files n = Some e" using map_of_distinct_iff [OF assms, of n e] by simp
    moreover from e(1) have "n \<in> set (map fst files)" by force
    ultimately show "n \<in> set (filter ?keep (map fst files))"
      using e(2,3,4) isImageFile_iff [of n] by simp
  qed
  ultimately show ?thesis by blast
qed

lemma imageFiles_subset:
  "set (imageFiles lc files) \<subseteq> {n. \<exists>e. (n, e) \<in> set files \<and> \<not> dir e \<and> hasImageExtension n}"
proof
  fix n
  let ?keep = "\<lambda>fileName. case map_of files fileName of
      Some file \<Rightarrow> \<not> dir file \<and> isImageFile fileName | None \<Rightarrow> False"
  assume "n \<in> set (imageFiles lc files)"
  moreover have "set (imageFiles lc files) = set (filter ?keep (map fst files))"
    using mset_arraySort [of "naturalSort lc" "filter ?keep (map fst files)", THEN arg_cong, of set_mset]
    by (simp only: imageFiles_def set_mset_mset)
  ultimately have "?keep n" by simp
  then obtain e where e: "map_of files n = Some e" "\<not> dir e" "isImageFile n"
    by (cases "map_of files n") simp_all
  from e(1) have "(n, e) \<in> set files" by (rule map_of_SomeD)
  with e(2,3) isImageFile_iff [of n]
  show "n \<in> {n. \<exists>e. (n, e) \<in> set files \<and> \<not> dir e \<and> hasImageExtension n}" by blast
qed

lemma distinct_imageFiles:
  assumes "distinct (map fst files)"
  shows "distinct (imageFiles lc files)"
proof -
  let ?keep = "\<lambda>fileName. case map_of files fileName of
      Some file \<Rightarrow> \<not> dir file \<and> isImageFile fileName | None \<Rightarrow> False"
  have "mset (imageFiles lc files) = mset (filter ?keep (map fst files))"
    by (simp only: imageFiles_def mset_arraySort)
  then have "distinct (imageFiles lc files) = distinct (filter ?keep (map fst files))"
    by (rule mset_eq_imp_distinct_iff)
  moreover from assms have "distinct (filter ?keep (map fst files))"
    by (rule distinct_filter)
  ultimately show ?thesis by simp
qed

lemma sorted_imageFiles:
  assumes "consistentOn (naturalSort lc) (set (imageFiles lc files))"
  shows "sorted_wrt (\<lambda>a b. \<not> positive (naturalSort lc a b)) (imageFiles lc files)"
proof -
  let ?keep = "\<lambda>fileName. case map_of files fileName of
      Some file \<Rightarrow> \<not> dir file \<and> isImageFile fileName | None \<Rightarrow> False"
  have "set (imageFiles lc files) = set (filter ?keep (map fst files))"
    using mset_arraySort [of "naturalSort lc" "filter ?keep (map fst files)", THEN arg_cong, of set_mset]
    by (simp only: imageFiles_def set_mset_mset)
  then have "set (filter ?keep (map fst files)) \<subseteq> set (imageFiles lc files)" by simp
  with assms show ?thesis
    unfolding imageFiles_def by (rule sorted_arraySort)
qed

lemma extractLoop_all:
  assumes "list_all (materializes files) names"
  shows "map pageCore (fst (extractLoop files comicId 0 names ([], br)))
       = map (\<lambda>kn. (int (fst kn), comicId @ ''-page-'' @ decimal (fst kn),
                     (case asyncBlob files (snd kn) of Inr b \<Rightarrow> b | Inl e \<Rightarrow> [])))
           (enumerate 0 names)"
proof -
  let ?g = "\<lambda>kn. (int (fst kn), comicId @ ''-page-'' @ decimal (fst kn),
                     (case asyncBlob files (snd kn) of Inr b \<Rightarrow> b | Inl e \<Rightarrow> []))"
  have "pageAt files comicId kn = Some (?g kn)" if "kn \<in> set (enumerate 0 names)" for kn
  proof -
    from that have "snd kn \<in> set names"
      using nth_mem [of "fst kn" names] by (auto simp: in_set_enumerate_eq)
    with assms have "materializes files (snd kn)" by (simp add: list_all_iff)
    then show ?thesis by (auto simp: materializes_def pageAt_def split: sum.splits)
  qed
  then have "List.map_filter (pageAt files comicId) (enumerate 0 names) = map ?g (enumerate 0 names)"
    by (rule map_filter_all)
  with extractLoop_pages [of files comicId 0 names "[]" br] show ?thesis by simp
qed

lemma imageFiles_exampleArchive:
  "imageFiles lc (exampleArchive b3 b1 bt b2) = [str ''001.jpg'', str ''002.webp'', str ''003.png'']"
  by (simp add: exampleArchive_def imageFiles_def arraySort_def isImageFile_def
      imageExtensions_def substring_def lastIndexOf_def toLowerCase_def lowerUnit_def
      lowerLetter_def str_def naturalSort_def isDigitChar_def comparePart_def isDigits_def
      parseInt_def digitsValue_def toNumber_def roundInteger_def)

lemma decimal_digits:
  "decimal 0 = ''0''" "decimal (Suc 0) = ''1''" "decimal (Suc (Suc 0)) = ''2''" "decimal 2 = ''2''"
  by (subst decimal.simps, simp)+

lemma extract_exampleArchive:
  "map pageCore (fst (extractLoop (exampleArchive b3 b1 bt b2) comicId 0
      [str ''001.jpg'', str ''002.webp'', str ''003.png''] ([], br)))
   = [(0, comicId @ ''-page-0'', b1), (1, comicId @ ''-page-1'', b2), (2, comicId @ ''-page-2'', b3)]"
  by (simp add: exampleArchive_def asyncBlob_def createObjectURL_def pageCore_def decimal_digits
      str_def)

lemma extractLoop_blobs:
  "map page_blob (fst (extractLoop files comicId i names (pgs, br)))
   = map page_blob pgs
     @ List.map_filter (\<lambda>n. case asyncBlob files n of Inr b \<Rightarrow> Some b | Inl e \<Rightarrow> None) names"
proof (induction names arbitrary: i pgs br)
  case Nil
  show ?case by (simp add: List.map_filter_simps)
next
  case (Cons n names)
  show ?case
  proof (cases "asyncBlob files n")
    case (Inl e)
    with Cons [of "Suc i" pgs] show ?thesis by (simp add: List.map_filter_simps)
  next
    case (Inr b)
    with Cons [of "Suc i"] show ?thesis
      by (simp add: List.map_filter_simps createObjectURL_def)
  qed
qed

lemma imageFiles_dottedArchive: "imageFiles lc dottedArchive = []"
  by (simp add: dottedArchive_def imageFiles_def arraySort_def isImageFile_def
      imageExtensions_def substring_def lastIndexOf_def toLowerCase_def lowerUnit_def
      lowerLetter_def str_def)

lemma imageFiles_superscriptArchive:
  "imageFiles unicodeCompare superscriptArchive
   = [str ''9.jpg'', str ''10.jpg'', 178 # str ''.jpg'']"
  by (simp add: superscriptArchive_def imageFiles_def arraySort_def isImageFile_def
      imageExtensions_def substring_def lastIndexOf_def toLowerCase_def lowerUnit_def
      lowerLetter_def str_def naturalSort_def isDigitChar_def comparePart_def isDigits_def
      parseInt_def digitsValue_def toNumber_def roundInteger_def unicodeCompare_def
      superscriptRank_def)

text \<open>
  The names \<open>9.jpg\<close>, \<open>10.jpg\<close> and the superscript two followed by \<open>.jpg\<close> have no
  arrangement in which \<open>naturalSort unicodeCompare\<close> never puts a later name before an
  earlier one, whichever way a sort arranges them.
\<close>

lemma superscript_names_unsortable:
  assumes "set xs = {str ''9.jpg'', str ''10.jpg'', 178 # str ''.jpg''}"
  shows "\<not> sorted_wrt (\<lambda>a b. \<not> positive (naturalSort unicodeCompare a b)) xs"
proof -
  note c = naturalSort_cycle
  have "positive (naturalSort unicodeCompare (str ''10.jpg'') (str ''9.jpg''))"
    "positive (naturalSort unicodeCompare (178 # str ''.jpg'') (str ''10.jpg''))"
    "positive (naturalSort unicodeCompare (str ''9.jpg'') (178 # str ''.jpg''))"
    using c naturalSort_anti [OF collation_unicodeCompare] by blast+
  moreover have "str ''9.jpg'' \<noteq> str ''10.jpg''" "str ''10.jpg'' \<noteq> 178 # str ''.jpg''"
    "str ''9.jpg'' \<noteq> 178 # str ''.jpg''"
    by (simp_all add: str_def)
  moreover from assms have "str ''9.jpg'' \<in> set xs" "str ''10.jpg'' \<in> set xs"
    "178 # str ''.jpg'' \<in> set xs"
    by simp_all
  ultimately show ?thesis by (rule cycle_not_sorted)
qed

text \<open>
  C1 as stated fails, in two ways. The entry whose name is the capital I with a dot
  above followed by \<open>.JPG\<close> is not a directory and has the extension \<open>.JPG\<close>, yet no
  page is built from it: lower-casing lengthens the name by one code unit, and the
  extension is cut at the index of the dot in the name as it was. And the pages are
  not ordered by the natural comparator for every collation of a host: under
  \<open>unicodeCompare\<close> the names \<open>9.jpg\<close>, \<open>10.jpg\<close> and the superscript two followed by
  \<open>.jpg\<close> are retained in this order, though the comparator puts the third before the
  first.
\<close>

theorem extraction_counterexample:
  "hasImageExtension (304 # str ''.JPG'')
   \<and> extractPagesFromCBR ordinalCompare (\<lambda>buffer. Inr dottedArchive) newBrowser [] ''c1''
       = (Inr [], newBrowser)
   \<and> imageFiles unicodeCompare superscriptArchive
       = [str ''9.jpg'', str ''10.jpg'', 178 # str ''.jpg'']
   \<and> positive (naturalSort unicodeCompare (str ''9.jpg'') (178 # str ''.jpg''))
   \<and> \<not> sorted_wrt (\<lambda>a b. \<not> positive (naturalSort unicodeCompare a b))
         (imageFiles unicodeCompare superscriptArchive)"
proof -
  have "hasImageExtension (304 # str ''.JPG'')"
    by (simp add: hasImageExtension_def imageExtensions_def str_def sameLetter_def)
  moreover have "extractPagesFromCBR ordinalCompare (\<lambda>buffer. Inr dottedArchive) newBrowser [] ''c1''
      = (Inr [], newBrowser)"
    by (simp add: extractPagesFromCBR_def imageFiles_dottedArchive)
  moreover note imageFiles_superscriptArchive
  moreover have p: "positive (naturalSort unicodeCompare (str ''9.jpg'') (178 # str ''.jpg''))"
    by (simp add: naturalSort_def str_def isDigitChar_def comparePart_def isDigits_def
        unicodeCompare_def superscriptRank_def)
  moreover from p have "\<not> sorted_wrt (\<lambda>a b. \<not> positive (naturalSort unicodeCompare a b))
      (imageFiles unicodeCompare superscriptArchive)"
    by (simp add: imageFiles_superscriptArchive)
  ultimately show ?thesis by blast
qed

text \<open>
  C1, as amended. Let a buffer load as an archive. Then \<open>extractPagesFromCBR\<close> is
  fulfilled, for every collation. The names it retains are names of non-directory
  entries that end with one of \<open>.jpg .jpeg .png .gif .bmp .webp\<close>, in small or capital
  letters; when the entry names are distinct, as the keys of an object are, every
  such entry whose name has no capital I with a dot above (code 304) is retained, and
  each retained name once. The pages hold
  the blobs of the retained entries that materialize, in the order of the retained
  names. When \<open>naturalSort\<close> is consistent on the retained names, that order is one in
  which it never puts a later name before an earlier one. It is consistent on them
  when the collation is a total preorder and the runs of the retained names keep
  apart from the digits, as the runs of all names do when every string without a
  digit sorts strictly before all runs of digits or strictly after all of them. When
  every retained entry materializes, there is one page per retained name, and the
  page at position \<open>k\<close> has index \<open>k\<close>, id \<open><comicId>-page-<k>\<close> and the blob of the
  \<open>k\<close>-th retained name. For the archive with entries \<open>003.png\<close>, \<open>001.jpg\<close>,
  \<open>cover.txt\<close>, \<open>002.webp\<close>, under any collation, there are exactly three pages, those
  of \<open>001.jpg\<close>, \<open>002.webp\<close>, \<open>003.png\<close> in this order.
\<close>

theorem extraction_pages_in_order:
  "(loadAsync arrayBuffer = Inr files \<longrightarrow>
    (\<exists>pgs br'. extractPagesFromCBR lc loadAsync br arrayBuffer comicId = (Inr pgs, br')
       \<and> set (imageFiles lc files)
           \<subseteq> {n. \<exists>e. (n, e) \<in> set files \<and> \<not> dir e \<and> hasImageExtension n}
       \<and> (distinct (map fst files) \<longrightarrow>
            {n. \<exists>e. (n, e) \<in> set files \<and> \<not> dir e \<and> hasImageExtension n \<and> 304 \<notin> set n}
              \<subseteq> set (imageFiles lc files)
            \<and> distinct (imageFiles lc files))
       \<and> (collation lc \<and> (digitsApart lc \<or> list_all (apartName lc) (imageFiles lc files)) \<longrightarrow>
            consistentOn (naturalSort lc) (set (imageFiles lc files)))
       \<and> (consistentOn (naturalSort lc) (set (imageFiles lc files)) \<longrightarrow>
            sorted_wrt (\<lambda>a b. \<not> positive (naturalSort lc a b)) (imageFiles lc files))
       \<and> map page_blob pgs
           = List.map_filter (\<lambda>n. case asyncBlob files n of Inr b \<Rightarrow> Some b | Inl e \<Rightarrow> None)
               (imageFiles lc files)
       \<and> (list_all (materializes files) (imageFiles lc files) \<longrightarrow>
            length pgs = length (imageFiles lc files)
            \<and> (\<forall>k < length pgs.
                  page_index (pgs ! k) = int k
                  \<and> page_id (pgs ! k) = comicId @ ''-page-'' @ decimal k
                  \<and> asyncBlob files (imageFiles lc files ! k) = Inr (page_blob (pgs ! k))))))
   \<and> (\<exists>pgs br'. extractPagesFromCBR lc' (\<lambda>buffer. Inr (exampleArchive b3 b1 bt b2)) br arrayBuffer comicId
           = (Inr pgs, br')
       \<and> imageFiles lc' (exampleArchive b3 b1 bt b2)
           = [str ''001.jpg'', str ''002.webp'', str ''003.png'']
       \<and> map pageCore pgs
           = [(0, comicId @ ''-page-0'', b1), (1, comicId @ ''-page-1'', b2),
              (2, comicId @ ''-page-2'', b3)])"
proof (intro conjI impI)
  assume a: "loadAsync arrayBuffer = Inr files"
  let ?names = "imageFiles lc files"
  let ?pgs = "fst (extractLoop files comicId 0 ?names ([], br))"
  let ?g = "\<lambda>kn. (int (fst kn), comicId @ ''-page-'' @ decimal (fst kn),
                     (case asyncBlob files (snd kn) of Inr b \<Rightarrow> b | Inl e \<Rightarrow> []))"
  have full: "length ?pgs = length ?names
      \<and> (\<forall>k < length ?pgs. page_index (?pgs ! k) = int k
            \<and> page_id (?pgs ! k) = comicId @ ''-page-'' @ decimal k
            \<and> asyncBlob files (?names ! k) = Inr (page_blob (?pgs ! k)))"
    if m: "list_all (materializes files) ?names"
  proof -
    from m have core: "map pageCore ?pgs = map ?g (enumerate 0 ?names)"
      by (rule extractLoop_all)
    then have "length (map pageCore ?pgs) = length (map ?g (enumerate 0 ?names))" by simp
    then have len: "length ?pgs = length ?names" by simp
    have "page_index (?pgs ! k) = int k
        \<and> page_id (?pgs ! k) = comicId @ ''-page-'' @ decimal k
        \<and> asyncBlob files (?names ! k) = Inr (page_blob (?pgs ! k))" if "k < length ?pgs" for k
    proof -
      from that len have k: "k < length ?names" by simp
      from that have "pageCore (?pgs ! k) = map pageCore ?pgs ! k" by simp
      also from core have "\<dots> = map ?g (enumerate 0 ?names) ! k" by simp
      also from k have "\<dots> = ?g (k, ?names ! k)" by (simp add: nth_enumerate_eq)
      finally have c: "pageCore (?pgs ! k) = ?g (k, ?names ! k)" .
      from m k have "materializes files (?names ! k)" by (simp add: list_all_length)
      then obtain b where b: "asyncBlob files (?names ! k) = Inr b"
        by (auto simp: materializes_def split: sum.splits)
      with c show ?thesis by (simp add: pageCore_def)
    qed
    with len show ?thesis by blast
  qed
  have consistent: "consistentOn (naturalSort lc) (set ?names)"
    if c: "collation lc \<and> (digitsApart lc \<or> list_all (apartName lc) ?names)"
  proof -
    have "apartName lc n" if "n \<in> set ?names" for n
      using c that apartName_digitsApart [of lc n] by (auto simp: list_all_iff)
    with c show ?thesis by (intro consistentOn_naturalSort) simp_all
  qed
  have ordered: "sorted_wrt (\<lambda>a b. \<not> positive (naturalSort lc a b)) ?names"
    if "consistentOn (naturalSort lc) (set ?names)"
    using that by (rule sorted_imageFiles)
  from a have "extractPagesFromCBR lc loadAsync br arrayBuffer comicId
      = (Inr ?pgs, snd (extractLoop files comicId 0 ?names ([], br)))"
    by (simp add: extractPagesFromCBR_loaded)
  moreover have "set ?names \<subseteq> {n. \<exists>e. (n, e) \<in> set files \<and> \<not> dir e \<and> hasImageExtension n}"
    by (rule imageFiles_subset)
  moreover have
    "{n. \<exists>e. (n, e) \<in> set files \<and> \<not> dir e \<and> hasImageExtension n \<and> 304 \<notin> set n}
       \<subseteq> set ?names \<and> distinct ?names"
    if "distinct (map fst files)"
    using that by (simp add: set_imageFiles distinct_imageFiles)
  moreover have "map page_blob ?pgs
      = List.map_filter (\<lambda>n. case asyncBlob files n of Inr b \<Rightarrow> Some b | Inl e \<Rightarrow> None) ?names"
    using extractLoop_blobs [of files comicId 0 ?names "[]" br] by simp
  ultimately show "\<exists>pgs br'. extractPagesFromCBR lc loadAsync br arrayBuffer comicId = (Inr pgs, br')
       \<and> set ?names \<subseteq> {n. \<exists>e. (n, e) \<in> set files \<and> \<not> dir e \<and> hasImageExtension n}
       \<and> (distinct (map fst files) \<longrightarrow>
            {n. \<exists>e. (n, e) \<in> set files \<and> \<not> dir e \<and> hasImageExtension n \<and> 304 \<notin> set n}
              \<subseteq> set ?names
            \<and> distinct ?names)
       \<and> (collation lc \<and> (digitsApart lc \<or> list_all (apartName lc) ?names) \<longrightarrow>
            consistentOn (naturalSort lc) (set ?names))
       \<and> (consistentOn (naturalSort lc) (set ?names) \<longrightarrow>
            sorted_wrt (\<lambda>a b. \<not> positive (naturalSort lc a b)) ?names)
       \<and> map page_blob pgs
           = List.map_filter (\<lambda>n. case asyncBlob files n of Inr b \<Rightarrow> Some b | Inl e \<Rightarrow> None) ?names
       \<and> (list_all (materializes files) ?names \<longrightarrow>
            length pgs = length ?names
            \<and> (\<forall>k < length pgs.
                  page_index (pgs ! k) = int k
                  \<and> page_id (pgs ! k) = comicId @ ''-page-'' @ decimal k
                  \<and> asyncBlob files (?names ! k) = Inr (page_blob (pgs ! k))))"
    using full consistent ordered by blast
next
  let ?ex = "exampleArchive b3 b1 bt b2"
  have "extractPagesFromCBR lc' (\<lambda>buffer. Inr ?ex) br arrayBuffer comicId
      = (Inr (fst (extractLoop ?ex comicId 0 (imageFiles lc' ?ex) ([], br))),
         snd (extractLoop ?ex comicId 0 (imageFiles lc' ?ex) ([], br)))"
    by (rule extractPagesFromCBR_loaded) simp
  then show "\<exists>pgs br'. extractPagesFromCBR lc' (\<lambda>buffer. Inr ?ex) br arrayBuffer comicId
           = (Inr pgs, br')
       \<and> imageFiles lc' ?ex = [str ''001.jpg'', str ''002.webp'', str ''003.png'']
       \<and> map pageCore pgs
           = [(0, comicId @ ''-page-0'', b1), (1, comicId @ ''-page-1'', b2),
              (2, comicId @ ''-page-2'', b3)]"
    using imageFiles_exampleArchive [of lc' b3 b1 bt b2]
      extract_exampleArchive [of b3 b1 bt b2 comicId br]
    by simp
qed

lemma extract_example_value:
  "extractPagesFromCBR ordinalCompare (\<lambda>buffer. Inr (exampleArchive [30] [10] [90] [20])) newBrowser [] ''c1''
   = (Inr [\<lparr>page_id = ''c1-page-0'', page_blob = [10], page_url = ''blob:0'', page_index = 0\<rparr>,
           \<lparr>page_id = ''c1-page-1'', page_blob = [20], page_url = ''blob:1'', page_index = 1\<rparr>,
           \<lparr>page_id = ''c1-page-2'', page_blob = [30], page_url = ''blob:2'', page_index = 2\<rparr>],
      \<lparr>objectURLs = [ [10], [20], [30] ], console = []\<rparr>)"
  by (simp add: extractPagesFromCBR_def imageFiles_exampleArchive)
     (simp add: exampleArchive_def newBrowser_def asyncBlob_def createObjectURL_def decimal_digits
        str_def)

theorem extraction_pages_in_order_witness:
  "collation ordinalCompare \<and> digitsApart ordinalCompare
   \<and> (\<lambda>buffer. Inr (exampleArchive [30] [10] [90] [20])) [] = Inr (exampleArchive [30] [10] [90] [20])
   \<and> distinct (map fst (exampleArchive [30] [10] [90] [20]))
   \<and> list_all (materializes (exampleArchive [30] [10] [90] [20]))
        (imageFiles ordinalCompare (exampleArchive [30] [10] [90] [20]))
   \<and> extractPagesFromCBR ordinalCompare (\<lambda>buffer. Inr (exampleArchive [30] [10] [90] [20])) newBrowser [] ''c1''
      = (Inr [\<lparr>page_id = ''c1-page-0'', page_blob = [10], page_url = ''blob:0'', page_index = 0\<rparr>,
              \<lparr>page_id = ''c1-page-1'', page_blob = [20], page_url = ''blob:1'', page_index = 1\<rparr>,
              \<lparr>page_id = ''c1-page-2'', page_blob = [30], page_url = ''blob:2'', page_index = 2\<rparr>],
         \<lparr>objectURLs = [ [10], [20], [30] ], console = []\<rparr>)
   \<and> sorted_wrt (\<lambda>a b. \<not> positive (naturalSort ordinalCompare a b))
        (imageFiles ordinalCompare (exampleArchive [30] [10] [90] [20]))
   \<and> imageFiles ordinalCompare (exampleArchive [30] [10] [90] [20])
       = [str ''001.jpg'', str ''002.webp'', str ''003.png'']"
proof -
  let ?ex = "exampleArchive [30] [10] [90] [20]"
  have d: "distinct (map fst ?ex)" by (simp add: exampleArchive_def str_def)
  have m: "list_all (materializes ?ex) (imageFiles ordinalCompare ?ex)"
    by (simp add: imageFiles_exampleArchive)
       (simp add: exampleArchive_def materializes_def asyncBlob_def str_def)
  have l: "(\<lambda>buffer. Inr ?ex) [] = Inr ?ex" by simp
  have hyps: "(\<lambda>buffer. Inr ?ex) [] = Inr ?ex" by simp
  have "(collation ordinalCompare
          \<and> (digitsApart ordinalCompare
               \<or> list_all (apartName ordinalCompare) (imageFiles ordinalCompare ?ex)) \<longrightarrow>
        consistentOn (naturalSort ordinalCompare) (set (imageFiles ordinalCompare ?ex)))
      \<and> (consistentOn (naturalSort ordinalCompare) (set (imageFiles ordinalCompare ?ex)) \<longrightarrow>
        sorted_wrt (\<lambda>a b. \<not> positive (naturalSort ordinalCompare a b))
          (imageFiles ordinalCompare ?ex))"
    using extraction_pages_in_order [where lc = ordinalCompare
        and loadAsync = "\<lambda>buffer. Inr (exampleArchive [30] [10] [90] [20])" and arrayBuffer = "[]"
        and files = "exampleArchive [30] [10] [90] [20]" and br = newBrowser and comicId = "''c1''",
        THEN conjunct1, THEN mp, OF hyps]
    by (elim exE conjE) (intro conjI)
  with collation_ordinalCompare digitsApart_ordinalCompare d m l extract_example_value
    imageFiles_exampleArchive [of ordinalCompare "[30]" "[10]" "[90]" "[20]"]
  show ?thesis by blast
qed

lemma imageFiles_damagedArchive:
  "imageFiles ordinalCompare damagedArchive = [str ''001.jpg'', str ''002.jpg'', str ''003.jpg'']"
  by (simp add: damagedArchive_def imageFiles_def arraySort_def isImageFile_def
      imageExtensions_def substring_def lastIndexOf_def toLowerCase_def lowerUnit_def
      lowerLetter_def str_def naturalSort_def isDigitChar_def comparePart_def isDigits_def
      parseInt_def digitsValue_def toNumber_def roundInteger_def)

lemma extract_damaged_value:
  "extractPagesFromCBR ordinalCompare (\<lambda>buffer. Inr damagedArchive) newBrowser [] ''c1''
   = (Inr [\<lparr>page_id = ''c1-page-0'', page_blob = [10], page_url = ''blob:0'', page_index = 0\<rparr>,
           \<lparr>page_id = ''c1-page-2'', page_blob = [30], page_url = ''blob:1'', page_index = 2\<rparr>],
      \<lparr>objectURLs = [ [10], [30] ], console = [str ''Failed to extract page 002.jpg:'']\<rparr>)"
  by (simp add: extractPagesFromCBR_def imageFiles_damagedArchive)
     (simp add: damagedArchive_def newBrowser_def asyncBlob_def createObjectURL_def warn_def
        decimal_digits str_def)

theorem extraction_skips_failed_entries_witness:
  "(\<lambda>buffer. Inr damagedArchive) [] = Inr damagedArchive
   \<and> extractPagesFromCBR ordinalCompare (\<lambda>buffer. Inr damagedArchive) newBrowser [] ''c1''
      = (Inr [\<lparr>page_id = ''c1-page-0'', page_blob = [10], page_url = ''blob:0'', page_index = 0\<rparr>,
              \<lparr>page_id = ''c1-page-2'', page_blob = [30], page_url = ''blob:1'', page_index = 2\<rparr>],
         \<lparr>objectURLs = [ [10], [30] ], console = [str ''Failed to extract page 002.jpg:'']\<rparr>)
   \<and> length (filter (materializes damagedArchive) (imageFiles ordinalCompare damagedArchive)) = 2"
proof -
  have l: "(\<lambda>buffer. Inr damagedArchive) [] = Inr damagedArchive" by simp
  have "\<exists>pgs br'. extractPagesFromCBR ordinalCompare (\<lambda>buffer. Inr damagedArchive) newBrowser [] ''c1''
        = (Inr pgs, br')
      \<and> length pgs = length (filter (materializes damagedArchive)
                                (imageFiles ordinalCompare damagedArchive))"
    using extraction_skips_failed_entries [where loadAsync = "\<lambda>buffer. Inr damagedArchive"
        and arrayBuffer = "[]" and files = damagedArchive and lc = ordinalCompare
        and br = newBrowser and comicId = "''c1''", OF l]
    by blast
  then have "length (filter (materializes damagedArchive) (imageFiles ordinalCompare damagedArchive)) = 2"
    using extract_damaged_value by auto
  with l extract_damaged_value show ?thesis by blast
qed

section \<open>Opening a comic: page count and cursor\<close>

text \<open>
  C3 as stated fails: with three pages extracted and a saved progress record whose
  \<open>currentPage\<close> is 5, the comic handed to the reader has \<open>totalPages = 3\<close> and
  \<open>currentPage = 5\<close>. The saved cursor is restored as it is.
\<close>

theorem open_comic_cursor_counterexample:
  "map_option (\<lambda>c. (int (length (pages c)), totalPages c, currentPage c))
     (openedComic (fst (downloadAndOpenComic (\<lambda>fileId. Inr []) ordinalCompare
        (\<lambda>buffer. Inr (exampleArchive [30] [10] [90] [20])) {} (storeAtPage5, newBrowser) listedComic)))
   = Some (3, 3, 5)
   \<and> \<not> ((5::int) < 3)"
  by (simp add: downloadAndOpenComic_def listedComic_def extract_example_value openedComic_def
      getComicProgress_def storeAtPage5_def Let_def)

text \<open>
  C3, as amended. For every comic the pipeline opens, \<open>totalPages\<close> is the length of its
  page list, and \<open>currentPage\<close> is 0 when no progress is saved for the comic and the
  saved \<open>currentPage\<close> otherwise. So \<open>0 \<le> currentPage < totalPages\<close> holds when the page
  list is not empty and the saved \<open>currentPage\<close>, if there is one, lies in
  \<open>[0, totalPages)\<close>.
\<close>

theorem open_comic_cursor:
  "downloadAndOpenComic downloadFile lc loadAsync downloadingComics (st, br) comic
     = (Opened c, st', br') \<Longrightarrow>
   totalPages c = int (length (pages c))
   \<and> currentPage c = (case getComicProgress st (comic_id comic) of
                        None \<Rightarrow> 0 | Some p \<Rightarrow> progress_currentPage p)
   \<and> (pages c \<noteq> []
        \<and> (case getComicProgress st (comic_id comic) of
              None \<Rightarrow> True
            | Some p \<Rightarrow> 0 \<le> progress_currentPage p
                         \<and> progress_currentPage p < int (length (pages c))) \<longrightarrow>
      0 \<le> currentPage c \<and> currentPage c < totalPages c)"
  by (auto simp: downloadAndOpenComic_def Let_def split: if_splits sum.splits prod.splits option.splits)

theorem open_comic_cursor_witness:
  "downloadAndOpenComic (\<lambda>fileId. Inr []) ordinalCompare
      (\<lambda>buffer. Inr (exampleArchive [30] [10] [90] [20])) {} (\<lparr>SERIES = None, COMIC_PROGRESS = None\<rparr>, newBrowser) listedComic
    = (Opened (listedComic\<lparr>pages :=
          [\<lparr>page_id = ''c1-page-0'', page_blob = [10], page_url = ''blob:0'', page_index = 0\<rparr>,
           \<lparr>page_id = ''c1-page-1'', page_blob = [20], page_url = ''blob:1'', page_index = 1\<rparr>,
           \<lparr>page_id = ''c1-page-2'', page_blob = [30], page_url = ''blob:2'', page_index = 2\<rparr>],
          totalPages := 3, currentPage := 0\<rparr>),
       \<lparr>SERIES = None, COMIC_PROGRESS = None\<rparr>,
       \<lparr>objectURLs = [ [10], [20], [30] ], console = []\<rparr>)
   \<and> totalPages (listedComic\<lparr>pages :=
          [\<lparr>page_id = ''c1-page-0'', page_blob = [10], page_url = ''blob:0'', page_index = 0\<rparr>,
           \<lparr>page_id = ''c1-page-1'', page_blob = [20], page_url = ''blob:1'', page_index = 1\<rparr>,
           \<lparr>page_id = ''c1-page-2'', page_blob = [30], page_url = ''blob:2'', page_index = 2\<rparr>],
          totalPages := 3, currentPage := 0\<rparr>) = 3
   \<and> currentPage (listedComic\<lparr>pages :=
          [\<lparr>page_id = ''c1-page-0'', page_blob = [10], page_url = ''blob:0'', page_index = 0\<rparr>,
           \<lparr>page_id = ''c1-page-1'', page_blob = [20], page_url = ''blob:1'', page_index = 1\<rparr>,
           \<lparr>page_id = ''c1-page-2'', page_blob = [30], page_url = ''blob:2'', page_index = 2\<rparr>],
          totalPages := 3, currentPage := 0\<rparr>) = 0"
proof -
  let ?c = "listedComic\<lparr>pages :=
          [\<lparr>page_id = ''c1-page-0'', page_blob = [10], page_url = ''blob:0'', page_index = 0\<rparr>,
           \<lparr>page_id = ''c1-page-1'', page_blob = [20], page_url = ''blob:1'', page_index = 1\<rparr>,
           \<lparr>page_id = ''c1-page-2'', page_blob = [30], page_url = ''blob:2'', page_index = 2\<rparr>],
          totalPages := 3, currentPage := 0\<rparr>"
  have run: "downloadAndOpenComic (\<lambda>fileId. Inr []) ordinalCompare
      (\<lambda>buffer. Inr (exampleArchive [30] [10] [90] [20])) {} (\<lparr>SERIES = None, COMIC_PROGRESS = None\<rparr>, newBrowser) listedComic
    = (Opened ?c, \<lparr>SERIES = None, COMIC_PROGRESS = None\<rparr>, \<lparr>objectURLs = [ [10], [20], [30] ], console = []\<rparr>)"
    by (simp add: downloadAndOpenComic_def extract_example_value getComicProgress_def
        saveComic_def getSeries_def listedComic_def)
  from open_comic_cursor [OF run] have "totalPages ?c = int (length (pages ?c))"
    and "currentPage ?c = 0" by (simp_all add: getComicProgress_def)
  with run show ?thesis by simp
qed

end
